theory Spec2Isabelle
  imports Complex_Main "HOL-Library.Word"
begin

unbundle bit_operations_syntax

section \<open>KrakenGate: the Mumble bridge and the transmit gate\<close>

text \<open>
  A shallow embedding of \<^verbatim>\<open>mumble_bridge.py\<close> (class \<^verbatim>\<open>MumbleBridge\<close>) and of the
  transmit-gate globals and functions of \<^verbatim>\<open>remote_trx.py\<close>. Attributes and globals are
  record fields (the leading underscore of a Python name is dropped), exceptions are
  values, calls into collaborators that are not part of the repository (the pymumble
  session, the CM108 PTT driver, the sounddevice stream, the logging module) are traces
  kept in the state.
\<close>

subsection \<open>Python values\<close>

type_synonym byte = "8 word"

datatype py_error = UnboundLocalError | TypeError | NameError | ValueError

text \<open>Arguments that are neither \<^verbatim>\<open>np.ndarray\<close> nor \<^verbatim>\<open>bytes\<close>.\<close>

datatype py_other =
  PyNone | PyByteArray "byte list" | PyList "int list" | PyStr string | PyInt int | PyFloat real

text \<open>
  What a caller can hand to \<^verbatim>\<open>send_pcm\<close>. An integer ndarray is given by its elements
  (any integer dtype, already flattened by \<^verbatim>\<open>reshape(-1)\<close>).
\<close>

datatype pcm_input = NdArray "int list" | Bytes "byte list" | Other py_other

text \<open>\<^verbatim>\<open>astype(np.int16)\<close> wraps an integer to 16 bits; on an int16 array it is the identity.\<close>

definition astype_int16 :: "int list \<Rightarrow> 16 word list" where
  "astype_int16 xs = map word_of_int xs"

text \<open>\<^verbatim>\<open>tobytes()\<close> of an int16 array: two bytes per sample, low byte first.\<close>

definition tobytes :: "16 word list \<Rightarrow> byte list" where
  "tobytes ws = concat (map (\<lambda>w. [ucast w, ucast (drop_bit 8 w)]) ws)"

text \<open>
  \<^verbatim>\<open>np.frombuffer(buf, dtype=np.int16)\<close>: raises ValueError when the buffer size is not a
  multiple of the element size.
\<close>

fun pairs_int16 :: "byte list \<Rightarrow> 16 word list" where
  "pairs_int16 (lo # hi # rest) = (ucast lo OR push_bit 8 (ucast hi)) # pairs_int16 rest"
| "pairs_int16 _ = []"

definition frombuffer_int16 :: "byte list \<Rightarrow> py_error + 16 word list" where
  "frombuffer_int16 buf =
     (if length buf mod 2 \<noteq> 0 then Inl ValueError else Inr (pairs_int16 buf))"

text \<open>\<^verbatim>\<open>int(x)\<close> on a float truncates toward zero.\<close>

definition py_int :: "real \<Rightarrow> int" where
  "py_int x = (if 0 \<le> x then \<lfloor>x\<rfloor> else \<lceil>x\<rceil>)"

text \<open>Truthiness of an \<^verbatim>\<open>Optional[int]\<close>: \<^verbatim>\<open>None\<close> and \<^verbatim>\<open>0\<close> are false.\<close>

definition truthy :: "int option \<Rightarrow> bool" where
  "truthy v = (case v of None \<Rightarrow> False | Some n \<Rightarrow> n \<noteq> 0)"

text \<open>The slice \<^verbatim>\<open>a[:k]\<close> and the statement \<^verbatim>\<open>del a[:k]\<close>; a negative \<open>k\<close> counts from the end.\<close>

definition slice_to :: "int \<Rightarrow> 'a list \<Rightarrow> 'a list" where
  "slice_to k xs = (if 0 \<le> k then take (nat k) xs else take (length xs - nat (- k)) xs)"

definition del_to :: "int \<Rightarrow> 'a list \<Rightarrow> 'a list" where
  "del_to k xs = (if 0 \<le> k then drop (nat k) xs else drop (length xs - nat (- k)) xs)"

subsection \<open>\<^verbatim>\<open>queue.Queue(maxsize=200)\<close>\<close>

definition maxsize :: nat where
  "maxsize = 200"

datatype queue_error = Full | Empty

text \<open>The oldest element is the head of the list.\<close>

definition put_nowait :: "'a list \<Rightarrow> 'a \<Rightarrow> queue_error + 'a list" where
  "put_nowait q x = (if maxsize \<le> length q then Inl Full else Inr (q @ [x]))"

text \<open>\<^verbatim>\<open>get(timeout=...)\<close> on a queue to which nothing is added during the wait.\<close>

definition get_timeout :: "'a list \<Rightarrow> queue_error + ('a \<times> 'a list)" where
  "get_timeout q = (case q of [] \<Rightarrow> Inl Empty | x # rest \<Rightarrow> Inr (x, rest))"

subsection \<open>The bridge object\<close>

datatype log_msg =
  TxQueueFull            \<comment> \<open>debug: "TX queue full, dropping frame"\<close>
| RxQueueFull            \<comment> \<open>debug: "[MB] RX queue full, dropping frame"\<close>
| EncoderFrame int       \<comment> \<open>info: "[MumbleBridge] Encoder frame: n bytes ..."\<close>
| TxWorkerStarted
| TxWorkerExiting

datatype worker_status = NotStarted | Running | Exited | Raised py_error

record mumble_bridge =
  tx_q :: "byte list list"              \<comment> \<open>\<^verbatim>\<open>self._tx_q\<close>, radio to Mumble\<close>
  rx_q :: "byte list list"              \<comment> \<open>\<^verbatim>\<open>self._rx_q\<close>, Mumble to radio\<close>
  frame_bytes :: "int option"           \<comment> \<open>\<^verbatim>\<open>self._frame_bytes\<close>\<close>
  accum :: "byte list"                  \<comment> \<open>\<^verbatim>\<open>self._accum\<close>\<close>
  shutdown :: bool                      \<comment> \<open>\<^verbatim>\<open>self._shutdown\<close>\<close>
  encoder_framesize :: "real option"    \<comment> \<open>\<^verbatim>\<open>self._m.sound_output.encoder_framesize\<close>, seconds\<close>
  add_sound_calls :: "byte list list"   \<comment> \<open>arguments of \<^verbatim>\<open>self._m.sound_output.add_sound\<close>, oldest first\<close>
  logged :: "log_msg list"              \<comment> \<open>what was handed to \<^verbatim>\<open>logging\<close>, oldest first\<close>
  w_status :: worker_status             \<comment> \<open>the thread running \<^verbatim>\<open>_tx_worker\<close>\<close>
  w_frame_bytes :: "int option option"  \<comment> \<open>its local \<^verbatim>\<open>frame_bytes\<close>; \<open>None\<close> is unbound\<close>

definition new_bridge :: mumble_bridge where
  "new_bridge = \<lparr> tx_q = [], rx_q = [], frame_bytes = None, accum = [], shutdown = False,
     encoder_framesize = None, add_sound_calls = [], logged = [],
     w_status = NotStarted, w_frame_bytes = None \<rparr>"

text \<open>
  \<^verbatim>\<open>send_pcm\<close>, lines 167-190. The chain of lines 176-184 either binds \<^verbatim>\<open>buf\<close> or
  returns (\<open>None\<close>).
\<close>

definition pcm_buf :: "pcm_input \<Rightarrow> byte list option" where
  "pcm_buf pcm =
     (case pcm of
        NdArray xs \<Rightarrow> Some (tobytes (astype_int16 xs))
      | Bytes bs \<Rightarrow> Some bs
      | Other _ \<Rightarrow> None)"

definition send_pcm :: "pcm_input \<Rightarrow> mumble_bridge \<Rightarrow> mumble_bridge" where
  "send_pcm pcm b =
     (case pcm_buf pcm of
        None \<Rightarrow> b
      | Some buf \<Rightarrow>
          (case put_nowait (tx_q b) buf of
             Inr q \<Rightarrow> b\<lparr>tx_q := q\<rparr>
           | Inl _ \<Rightarrow> b\<lparr>logged := logged b @ [TxQueueFull]\<rparr>))"

text \<open>\<^verbatim>\<open>_on_sound_received\<close>, lines 192-201; the argument is \<^verbatim>\<open>soundchunk.pcm\<close>.\<close>

definition on_sound_received :: "byte list \<Rightarrow> mumble_bridge \<Rightarrow> mumble_bridge" where
  "on_sound_received pcm_bytes b =
     (case put_nowait (rx_q b) pcm_bytes of
        Inr q \<Rightarrow> b\<lparr>rx_q := q\<rparr>
      | Inl _ \<Rightarrow> b\<lparr>logged := logged b @ [RxQueueFull]\<rparr>)"

text \<open>\<^verbatim>\<open>get_received\<close>, lines 203-208.\<close>

definition get_received :: "mumble_bridge \<Rightarrow> byte list option \<times> mumble_bridge" where
  "get_received b =
     (case get_timeout (rx_q b) of
        Inr (x, rest) \<Rightarrow> (Some x, b\<lparr>rx_q := rest\<rparr>)
      | Inl _ \<Rightarrow> (None, b))"

text \<open>\<^verbatim>\<open>_compute_frame_bytes_if_ready\<close>, lines 235-248.\<close>

definition compute_frame_bytes_if_ready :: "mumble_bridge \<Rightarrow> int option \<times> mumble_bridge" where
  "compute_frame_bytes_if_ready b =
     (if truthy (frame_bytes b) then (frame_bytes b, b)
      else (case encoder_framesize b of
              None \<Rightarrow> (frame_bytes b, b)
            | Some ef \<Rightarrow>
                if ef \<noteq> 0 then
                  (let fb = py_int (ef * 48000 * 2 * 1);
                       b' = b\<lparr>frame_bytes := Some fb, logged := logged b @ [EncoderFrame fb]\<rparr>
                   in (frame_bytes b', b'))
                else (frame_bytes b, b)))"

text \<open>
  The loop of lines 271-277, which stands after the \<^verbatim>\<open>while not shutdown\<close> loop of
  \<^verbatim>\<open>_tx_worker\<close>. With a frame size that is not positive it never ends: the result
  \<open>None\<close>.
\<close>

partial_function (option) flush_loop :: "int \<Rightarrow> mumble_bridge \<Rightarrow> mumble_bridge option" where
  "flush_loop fb b =
     (if fb \<le> int (length (accum b)) then
        flush_loop fb
          (b\<lparr>accum := del_to fb (accum b),
             add_sound_calls := add_sound_calls b @ [slice_to fb (accum b)]\<rparr>)
      else Some b)"

text \<open>What \<^verbatim>\<open>_tx_worker\<close> does once \<^verbatim>\<open>self._shutdown.is_set()\<close> ends its first loop.\<close>

definition tx_worker_after_loop :: "mumble_bridge \<Rightarrow> mumble_bridge option" where
  "tx_worker_after_loop b =
     (case w_frame_bytes b of
        None \<Rightarrow> Some (b\<lparr>w_status := Raised UnboundLocalError\<rparr>)
      | Some None \<Rightarrow> Some (b\<lparr>w_status := Raised TypeError\<rparr>)
      | Some (Some fb) \<Rightarrow>
          (case flush_loop fb b of
             None \<Rightarrow> None
           | Some b' \<Rightarrow> Some (b'\<lparr>logged := logged b' @ [TxWorkerExiting], w_status := Exited\<rparr>)))"

text \<open>
  One turn of the worker thread: the test of the \<^verbatim>\<open>while\<close> of line 253 and either one
  pass through its body (lines 254-270) or the code after it (lines 271-279). Both
  branches of line 268 lead back to line 253.
\<close>

definition tx_worker_iter :: "mumble_bridge \<Rightarrow> mumble_bridge option" where
  "tx_worker_iter b =
     (if w_status b \<noteq> Running then Some b
      else if shutdown b then tx_worker_after_loop b
      else (case get_timeout (tx_q b) of
              Inl _ \<Rightarrow> Some b
            | Inr (chunk, rest) \<Rightarrow>
                (let b1 = b\<lparr>tx_q := rest\<rparr>;
                     b2 = b1\<lparr>accum := accum b1 @ chunk\<rparr>;
                     (fb, b3) = compute_frame_bytes_if_ready b2;
                     b4 = b3\<lparr>w_frame_bytes := Some fb\<rparr>
                 in if \<not> truthy fb then Some b4 else Some b4)))"

text \<open>What can happen to a bridge, one event at a time.\<close>

datatype bridge_event =
  Start                        \<comment> \<open>\<^verbatim>\<open>start()\<close>: clears the shutdown flag, starts the worker\<close>
| SendPcm pcm_input            \<comment> \<open>a call of \<^verbatim>\<open>send_pcm\<close>\<close>
| SoundReceived "byte list"    \<comment> \<open>pymumble calls \<^verbatim>\<open>_on_sound_received\<close>\<close>
| EncoderInit real             \<comment> \<open>pymumble sets \<^verbatim>\<open>encoder_framesize\<close>\<close>
| TxWorkerIter                 \<comment> \<open>the worker thread takes a turn\<close>
| Stop                         \<comment> \<open>\<^verbatim>\<open>stop()\<close> sets the shutdown flag\<close>

fun bridge_step :: "bridge_event \<Rightarrow> mumble_bridge \<Rightarrow> mumble_bridge option" where
  "bridge_step Start b =
     Some (b\<lparr>shutdown := False, w_status := Running, w_frame_bytes := None,
             logged := logged b @ [TxWorkerStarted]\<rparr>)"
| "bridge_step (SendPcm pcm) b = Some (send_pcm pcm b)"
| "bridge_step (SoundReceived p) b = Some (on_sound_received p b)"
| "bridge_step (EncoderInit ef) b = Some (b\<lparr>encoder_framesize := Some ef\<rparr>)"
| "bridge_step TxWorkerIter b = tx_worker_iter b"
| "bridge_step Stop b = Some (b\<lparr>shutdown := True\<rparr>)"

fun bridge_run :: "bridge_event list \<Rightarrow> mumble_bridge \<Rightarrow> mumble_bridge option" where
  "bridge_run [] b = Some b"
| "bridge_run (e # es) b =
     (case bridge_step e b of None \<Rightarrow> None | Some b' \<Rightarrow> bridge_run es b')"

text \<open>
  The schedule in which each chunk is sent and the worker then takes its turn, so that
  the queue never fills.
\<close>

definition feed :: "byte list list \<Rightarrow> bridge_event list" where
  "feed cs = concat (map (\<lambda>c. [SendPcm (Bytes c), TxWorkerIter]) cs)"

subsection \<open>numpy's float arithmetic\<close>

text \<open>
  \<^verbatim>\<open>_dbfs_from_int16\<close> computes in numpy. What numpy does is given here as functions on
  real numbers: a float is the real number it stands for, and every operation rounds its
  exact result to the nearest float, ties to the even significand (24 bits for float32,
  53 for float64). The exponent is not bounded: the numbers of a block of int16 samples
  are far from overflow.
\<close>

definition round_half_even :: "real \<Rightarrow> int" where
  "round_half_even x =
     (let f = \<lfloor>x\<rfloor>
      in if x - of_int f < 1/2 then f
         else if 1/2 < x - of_int f then f + 1
         else if even f then f else f + 1)"

definition round_to :: "nat \<Rightarrow> real \<Rightarrow> real" where
  "round_to p x =
     (if x = 0 then 0
      else (let u = 2 powr of_int (\<lfloor>log 2 \<bar>x\<bar>\<rfloor> - int p + 1)
            in of_int (round_half_even (x / u)) * u))"

definition f32 :: "real \<Rightarrow> real" where
  "f32 = round_to 24"

definition f64 :: "real \<Rightarrow> real" where
  "f64 = round_to 53"

text \<open>
  The sum of a float32 array, as \<^verbatim>\<open>np.add.reduce\<close> computes it for \<^verbatim>\<open>np.mean\<close>: numpy's
  pairwise summation. Fewer than 8 numbers are added one by one from 0; up to 128 are
  added into eight accumulators that are then combined in pairs, and what is left over
  is added one by one; more are split at half the length, rounded down to a multiple of
  8, and the two sums are added. \<open>block_sum\<close> is the middle case and is applied to 8 to
  128 numbers only.
\<close>

definition fadd32 :: "real \<Rightarrow> real \<Rightarrow> real" where
  "fadd32 a b = f32 (a + b)"

function unroll8 :: "real list \<Rightarrow> real list \<Rightarrow> real list" where
  "unroll8 r xs =
     (if length xs < 8 then r
      else unroll8 (map (\<lambda>(a, b). fadd32 a b) (zip r (take 8 xs))) (drop 8 xs))"
  by pat_completeness auto
termination
  by (relation "measure (\<lambda>(r, xs). length xs)") auto

definition block_sum :: "real list \<Rightarrow> real" where
  "block_sum a =
     (let m = length a - length a mod 8;
          r = unroll8 (take 8 a) (take (m - 8) (drop 8 a));
          res = fadd32 (fadd32 (fadd32 (r ! 0) (r ! 1)) (fadd32 (r ! 2) (r ! 3)))
                       (fadd32 (fadd32 (r ! 4) (r ! 5)) (fadd32 (r ! 6) (r ! 7)))
      in foldl fadd32 res (drop m a))"

function pairwise_sum :: "real list \<Rightarrow> real" where
  "pairwise_sum a =
     (if length a < 8 then foldl fadd32 0 a
      else if length a \<le> 128 then block_sum a
      else fadd32 (pairwise_sum (take (length a div 2 - length a div 2 mod 8) a))
                  (pairwise_sum (drop (length a div 2 - length a div 2 mod 8) a)))"
  by pat_completeness auto
termination
  by (relation "measure length") auto

declare unroll8.simps [simp del] pairwise_sum.simps [simp del]

text \<open>
  \<^verbatim>\<open>_dbfs_from_int16\<close>, lines 51-57. \<^verbatim>\<open>np.mean\<close> of a float32 array adds in float32 from
  0, divides the float32 sum by the count in float64 and converts the quotient to
  float32; \<^verbatim>\<open>np.sqrt\<close> of a float32 is a float32. The division by 32767.0, the logarithm
  and the product with 20.0 are taken in float32, as numpy 2 does; older versions take
  these three in float64, which changes the last digits of the level and not whether it
  is 0.
\<close>

definition dbfs_from_int16 :: "16 word list \<Rightarrow> real" where
  "dbfs_from_int16 arr =
     (if length arr = 0 then - 100
      else (let x = map (\<lambda>w. real_of_int (sint w)) arr;
                sq = map (\<lambda>v. f32 (v * v)) x;
                total = fadd32 0 (pairwise_sum sq);
                mean = f32 (f64 (total / real (length sq)));
                rms = f32 (sqrt mean)
            in if rms > 0 then f32 (20 * f32 (log 10 (f32 (rms / 32767)))) else - 100))"

subsection \<open>The globals of \<^verbatim>\<open>remote_trx.py\<close>\<close>

datatype ptt_call = Key | Unkey

record remote_trx =
  is_transmitting :: bool
  last_key_time :: real
  current_rx_dbfs :: real
  current_tx_dbfs :: real
  tx_thread_alive :: bool                 \<comment> \<open>\<^verbatim>\<open>tx_thread and tx_thread.is_alive()\<close>\<close>
  tx_thread_exiting :: bool               \<comment> \<open>\<^verbatim>\<open>play_loop\<close> has left its loop at line 112 and not yet returned\<close>
  tx_thread_error :: "py_error option"    \<comment> \<open>the exception that ended \<^verbatim>\<open>play_loop\<close>, if one did\<close>
  play_loops_started :: nat               \<comment> \<open>how many \<^verbatim>\<open>play_loop\<close> threads were started\<close>
  ptt_trace :: "(real \<times> ptt_call) list"   \<comment> \<open>calls of \<^verbatim>\<open>ptt.key()\<close> and \<^verbatim>\<open>ptt.unkey()\<close> with their time\<close>
  stream_written :: "16 word list list"   \<comment> \<open>blocks handed to \<^verbatim>\<open>stream.write\<close>, oldest first\<close>

definition initial_trx :: remote_trx where
  "initial_trx = \<lparr> is_transmitting = False, last_key_time = 0, current_rx_dbfs = - 100,
     current_tx_dbfs = - 100, tx_thread_alive = False, tx_thread_exiting = False,
     tx_thread_error = None,
     play_loops_started = 0, ptt_trace = [], stream_written = [] \<rparr>"

subsection \<open>The playback loop\<close>

text \<open>
  One pass through the \<^verbatim>\<open>while True\<close> of \<^verbatim>\<open>play_loop\<close>, lines 108-122. Line 119 reads
  the name \<^verbatim>\<open>audio\<close>, which no statement of the module binds: evaluating the argument of
  \<^verbatim>\<open>_dbfs_from_int16\<close> raises NameError after the frame has been written, and the
  \<^verbatim>\<open>finally\<close> clause closes the stream as the thread ends.

  A thread that reads \<^verbatim>\<open>is_transmitting\<close> as false under the lock (lines 109-112) gives
  the lock back and leaves the loop; until its \<^verbatim>\<open>finally\<close> clause (lines 123-126) has run
  it is still alive. That is a turn of its own: other threads may run before the next.
\<close>

definition play_silence :: "nat \<Rightarrow> remote_trx \<Rightarrow> remote_trx" where
  "play_silence CHUNK g =
     (let g1 = g\<lparr>current_tx_dbfs := - 100\<rparr>
      in g1\<lparr>stream_written := stream_written g1 @ [replicate CHUNK 0]\<rparr>)"

definition play_loop_iter ::
    "nat \<Rightarrow> remote_trx \<times> mumble_bridge \<Rightarrow> remote_trx \<times> mumble_bridge" where
  "play_loop_iter CHUNK gb =
     (case gb of (g, b) \<Rightarrow>
        if \<not> tx_thread_alive g then (g, b)
        else if tx_thread_exiting g then
          (g\<lparr>tx_thread_alive := False, tx_thread_exiting := False\<rparr>, b)
        else if \<not> is_transmitting g then (g\<lparr>tx_thread_exiting := True\<rparr>, b)
        else (case get_received b of
                (Some pcm_bytes, b') \<Rightarrow>
                  if pcm_bytes \<noteq> [] then
                    (case frombuffer_int16 pcm_bytes of
                       Inl e \<Rightarrow> (g\<lparr>tx_thread_alive := False, tx_thread_error := Some e\<rparr>, b')
                     | Inr arr \<Rightarrow>
                         (let g1 = g\<lparr>stream_written := stream_written g @ [arr]\<rparr>
                          in (g1\<lparr>tx_thread_alive := False, tx_thread_error := Some NameError\<rparr>, b')))
                  else (play_silence CHUNK g, b')
              | (None, b') \<Rightarrow> (play_silence CHUNK g, b')))"

subsection \<open>Keying and the tail hang\<close>

text \<open>\<^verbatim>\<open>audio_tx_loop\<close>, lines 128-133: a new thread unless one is alive.\<close>

definition audio_tx_loop :: "remote_trx \<Rightarrow> remote_trx" where
  "audio_tx_loop g =
     (if tx_thread_alive g then g
      else g\<lparr>tx_thread_alive := True, tx_thread_exiting := False, tx_thread_error := None,
             play_loops_started := Suc (play_loops_started g)\<rparr>)"

text \<open>
  \<^verbatim>\<open>start_tx\<close>, lines 136-148; \<open>now\<close> is what \<^verbatim>\<open>time.time()\<close> returns. A failure of
  \<^verbatim>\<open>ptt.key()\<close> is logged and changes nothing else.
\<close>

definition start_tx :: "real \<Rightarrow> remote_trx \<Rightarrow> remote_trx" where
  "start_tx now g =
     (let g' = (if \<not> is_transmitting g then
                  (let g1 = g\<lparr>ptt_trace := ptt_trace g @ [(now, Key)]\<rparr>;
                       g2 = g1\<lparr>is_transmitting := True\<rparr>
                   in audio_tx_loop g2)
                else g)
      in g'\<lparr>last_key_time := now\<rparr>)"

text \<open>
  The body of \<^verbatim>\<open>_worker\<close> after its \<^verbatim>\<open>time.sleep(TAIL_HANG)\<close>, lines 154-163; \<open>now\<close>
  is the time at which it runs.
\<close>

definition tail_check :: "real \<Rightarrow> real \<Rightarrow> remote_trx \<Rightarrow> remote_trx" where
  "tail_check TAIL_HANG now g =
     (if is_transmitting g \<and> now - last_key_time g \<ge> TAIL_HANG then
        (let g1 = g\<lparr>ptt_trace := ptt_trace g @ [(now, Unkey)]\<rparr>
         in g1\<lparr>is_transmitting := False\<rparr>)
      else g)"

text \<open>
  \<^verbatim>\<open>stop_tx_after_tail\<close>, lines 150-164: a thread that sleeps and then runs the check.
  The threads asleep are given by the times at which they wake up; \<open>lag\<close> is how much
  later than asked \<^verbatim>\<open>time.sleep\<close> returns.
\<close>

definition stop_tx_after_tail :: "real \<Rightarrow> real \<Rightarrow> real \<Rightarrow> real list \<Rightarrow> real list" where
  "stop_tx_after_tail TAIL_HANG lag now sleepers = sleepers @ [now + TAIL_HANG + lag]"

text \<open>Every sleeper due by time \<open>t\<close> wakes up and runs its check at its own time.\<close>

fun wake_due :: "real \<Rightarrow> real \<Rightarrow> real list \<Rightarrow> remote_trx \<Rightarrow> remote_trx \<times> real list" where
  "wake_due TAIL_HANG t [] g = (g, [])"
| "wake_due TAIL_HANG t (w # ws) g =
     (if w \<le> t then wake_due TAIL_HANG t ws (tail_check TAIL_HANG w g)
      else (let (g', ws') = wake_due TAIL_HANG t ws g in (g', w # ws')))"

datatype request = RequestKey | RequestUnkey   \<comment> \<open>\<^verbatim>\<open>POST /ptt/on\<close> and \<^verbatim>\<open>POST /ptt/off\<close>\<close>

text \<open>
  The gate after the requests that arrive by time \<open>t\<close> (a list in order of arrival) and
  the checks that are due by then. A check due at the time of a request runs first.
\<close>

fun gate_run ::
    "real \<Rightarrow> real \<Rightarrow> (real \<times> request) list \<Rightarrow> real \<Rightarrow> remote_trx \<times> real list
       \<Rightarrow> remote_trx \<times> real list" where
  "gate_run TAIL_HANG lag [] t (g, ws) = wake_due TAIL_HANG t ws g"
| "gate_run TAIL_HANG lag ((tr, r) # rs) t (g, ws) =
     (if tr \<le> t then
        (let (g1, ws1) = wake_due TAIL_HANG tr ws g
         in gate_run TAIL_HANG lag rs t
              (case r of
                 RequestKey \<Rightarrow> (start_tx tr g1, ws1)
               | RequestUnkey \<Rightarrow> (g1, stop_tx_after_tail TAIL_HANG lag tr ws1)))
      else wake_due TAIL_HANG t ws g)"

definition gate_at :: "real \<Rightarrow> real \<Rightarrow> (real \<times> request) list \<Rightarrow> real \<Rightarrow> remote_trx" where
  "gate_at TAIL_HANG lag reqs t = fst (gate_run TAIL_HANG lag reqs t (initial_trx, []))"

subsection \<open>The status snapshot\<close>

record status_snapshot =
  tx :: bool
  last_key_age :: "real option"
  rx_dbfs :: real
  tx_dbfs :: real

text \<open>
  \<^verbatim>\<open>http_status\<close>, lines 178-190. It reads the globals at three places: line 179 reads
  \<^verbatim>\<open>last_key_time\<close> before \<^verbatim>\<open>tx_lock\<close> is taken, line 181 reads \<^verbatim>\<open>is_transmitting\<close>
  while holding it, lines 187-188 read the meters after it is released. Other threads
  may run in between, so the function takes the globals as they are at each place.
\<close>

definition http_status :: "real \<Rightarrow> remote_trx \<Rightarrow> remote_trx \<Rightarrow> remote_trx \<Rightarrow> status_snapshot" where
  "http_status now g179 g181 g187 =
     (let age = (if last_key_time g179 \<noteq> 0 then Some (now - last_key_time g179) else None);
          tx = is_transmitting g181
      in \<lparr> tx = tx, last_key_age = age,
           rx_dbfs = current_rx_dbfs g187, tx_dbfs = current_tx_dbfs g187 \<rparr>)"

section \<open>Properties\<close>

subsection \<open>Runs of the bridge\<close>

lemma bridge_run_append:
  "bridge_run (xs @ ys) b =
     (case bridge_run xs b of None \<Rightarrow> None | Some b' \<Rightarrow> bridge_run ys b')"
  by (induction xs arbitrary: b) (auto split: option.splits)

subsection \<open>The flush loop\<close>

text \<open>With a positive frame size the loop ends, and it cuts whole frames off the front.\<close>

lemma flush_loop_total:
  assumes "0 < fb"
  shows "\<exists>frames r. flush_loop fb b =
            Some (b\<lparr>accum := r, add_sound_calls := add_sound_calls b @ frames\<rparr>)
          \<and> concat frames @ r = accum b
          \<and> (\<forall>f\<in>set frames. int (length f) = fb)
          \<and> int (length r) < fb"
proof (induction "length (accum b)" arbitrary: b rule: less_induct)
  case less
  show ?case
  proof (cases "fb \<le> int (length (accum b))")
    case False
    then have "flush_loop fb b = Some b"
      by (subst flush_loop.simps) simp
    then have "flush_loop fb b = Some (b\<lparr>accum := accum b, add_sound_calls := add_sound_calls b @ []\<rparr>)
        \<and> concat [] @ accum b = accum b \<and> (\<forall>f\<in>set ([]::byte list list). int (length f) = fb)
        \<and> int (length (accum b)) < fb"
      using False by simp
    then show ?thesis by blast
  next
    case True
    define b1 where "b1 = b\<lparr>accum := del_to fb (accum b),
             add_sound_calls := add_sound_calls b @ [slice_to fb (accum b)]\<rparr>"
    have step: "flush_loop fb b = flush_loop fb b1"
      using True unfolding b1_def by (subst flush_loop.simps) simp
    have acc1: "accum b1 = drop (nat fb) (accum b)"
      using assms by (simp add: b1_def del_to_def)
    have sl: "slice_to fb (accum b) = take (nat fb) (accum b)"
      using assms by (simp add: slice_to_def)
    have "length (accum b1) < length (accum b)"
      using assms True by (simp add: acc1)
    from less[OF this] obtain frames r where
      IH: "flush_loop fb b1 = Some (b1\<lparr>accum := r, add_sound_calls := add_sound_calls b1 @ frames\<rparr>)"
          "concat frames @ r = accum b1" "\<forall>f\<in>set frames. int (length f) = fb" "int (length r) < fb"
      by blast
    let ?fs = "take (nat fb) (accum b) # frames"
    have 1: "flush_loop fb b = Some (b\<lparr>accum := r, add_sound_calls := add_sound_calls b @ ?fs\<rparr>)"
      using step IH(1) by (simp add: b1_def sl)
    have 2: "concat ?fs @ r = accum b"
      using IH(2) by (simp add: acc1)
    have 3: "\<forall>f\<in>set ?fs. int (length f) = fb"
      using IH(3) True assms by auto
    from 1 2 3 IH(4) show ?thesis by blast
  qed
qed

lemma flush_loop_Some_positive:
  assumes "flush_loop fb b = Some b'"
  shows "0 < fb"
proof (rule flush_loop.raw_induct [where P = "\<lambda>fb b b'. 0 < fb", OF _ assms])
  fix f :: "int \<Rightarrow> mumble_bridge \<Rightarrow> mumble_bridge option" and fb b b'
  assume IH: "\<And>fb b b'. f fb b = Some b' \<Longrightarrow> 0 < fb"
    and step: "(if fb \<le> int (length (accum b)) then
        f fb
          (b\<lparr>accum := del_to fb (accum b),
             add_sound_calls := add_sound_calls b @ [slice_to fb (accum b)]\<rparr>)
      else Some b) = Some b'"
  show "0 < fb"
  proof (cases "fb \<le> int (length (accum b))")
    case True
    with step IH show ?thesis by simp
  next
    case False
    then show ?thesis by simp
  qed
qed

lemma flush_loop_diverges: "fb \<le> 0 \<Longrightarrow> flush_loop fb b = None"
  using flush_loop_Some_positive [of fb b] by (cases "flush_loop fb b") auto

lemma flush_loop_queues:
  assumes "flush_loop fb b = Some b'"
  shows "tx_q b' = tx_q b \<and> rx_q b' = rx_q b"
proof -
  have "0 < fb" using assms by (rule flush_loop_Some_positive)
  from flush_loop_total [OF this, of b] assms show ?thesis by auto
qed

lemma tx_worker_iter_queues:
  assumes "tx_worker_iter b = Some b'"
  shows "length (tx_q b') \<le> length (tx_q b) \<and> rx_q b' = rx_q b"
  using assms
  by (auto simp: tx_worker_iter_def tx_worker_after_loop_def get_timeout_def
        compute_frame_bytes_if_ready_def Let_def
      split: if_splits option.splits list.splits dest: flush_loop_queues)

lemma send_pcm_bounded: "length (tx_q b) \<le> maxsize \<Longrightarrow> length (tx_q (send_pcm p b)) \<le> maxsize"
  by (auto simp: send_pcm_def put_nowait_def split: option.splits)

lemma send_pcm_rx: "rx_q (send_pcm p b) = rx_q b"
  by (auto simp: send_pcm_def put_nowait_def split: option.splits)

lemma on_sound_received_bounded:
  "length (rx_q b) \<le> maxsize \<Longrightarrow> length (rx_q (on_sound_received c b)) \<le> maxsize"
  by (auto simp: on_sound_received_def put_nowait_def)

lemma on_sound_received_tx: "tx_q (on_sound_received c b) = tx_q b"
  by (auto simp: on_sound_received_def put_nowait_def)

lemma bridge_step_bounded:
  assumes "bridge_step e b = Some b'" "length (tx_q b) \<le> maxsize" "length (rx_q b) \<le> maxsize"
  shows "length (tx_q b') \<le> maxsize \<and> length (rx_q b') \<le> maxsize"
proof (cases e)
  case TxWorkerIter
  with assms(1) have "tx_worker_iter b = Some b'" by simp
  from tx_worker_iter_queues [OF this] assms(2,3) show ?thesis by simp
qed (use assms in \<open>auto simp: send_pcm_bounded send_pcm_rx on_sound_received_bounded on_sound_received_tx\<close>)

lemma bridge_run_bounded:
  "bridge_run es b = Some b' \<Longrightarrow> length (tx_q b) \<le> maxsize \<Longrightarrow> length (rx_q b) \<le> maxsize
   \<Longrightarrow> length (tx_q b') \<le> maxsize \<and> length (rx_q b') \<le> maxsize"
proof (induction es arbitrary: b)
  case Nil
  then show ?case by simp
next
  case (Cons e es)
  from Cons.prems(1) obtain b1 where s: "bridge_step e b = Some b1" and r: "bridge_run es b1 = Some b'"
    by (auto split: option.splits)
  from bridge_step_bounded [OF s Cons.prems(2,3)] Cons.IH [OF r] show ?case by simp
qed

subsection \<open>The bounded queues\<close>

lemma send_pcm_cases:
  assumes "pcm_buf p = Some buf"
  shows "send_pcm p b =
     (if length (tx_q b) < maxsize then b\<lparr>tx_q := tx_q b @ [buf]\<rparr>
      else b\<lparr>logged := logged b @ [TxQueueFull]\<rparr>)"
  using assms by (simp add: send_pcm_def put_nowait_def)

lemma on_sound_received_cases:
  "on_sound_received c b =
     (if length (rx_q b) < maxsize then b\<lparr>rx_q := rx_q b @ [c]\<rparr>
      else b\<lparr>logged := logged b @ [RxQueueFull]\<rparr>)"
  by (simp add: on_sound_received_def put_nowait_def)

lemma fold_send_pcm:
  assumes "\<forall>p\<in>set ps. pcm_buf p \<noteq> None" and "length (tx_q b) \<le> maxsize"
  shows "tx_q (fold send_pcm ps b) = take maxsize (tx_q b @ map (the \<circ> pcm_buf) ps)
       \<and> length (filter (\<lambda>m. m = TxQueueFull) (logged (fold send_pcm ps b)))
          = length (filter (\<lambda>m. m = TxQueueFull) (logged b))
            + (length (tx_q b) + length ps - maxsize)"
  using assms
proof (induction ps arbitrary: b)
  case Nil
  then show ?case by simp
next
  case (Cons p ps)
  from Cons.prems(1) obtain buf where buf: "pcm_buf p = Some buf" by auto
  have rest: "\<forall>p\<in>set ps. pcm_buf p \<noteq> None" using Cons.prems(1) by simp
  show ?case
  proof (cases "length (tx_q b) < maxsize")
    case True
    then have s: "send_pcm p b = b\<lparr>tx_q := tx_q b @ [buf]\<rparr>"
      by (simp add: send_pcm_cases [OF buf])
    have "length (tx_q (b\<lparr>tx_q := tx_q b @ [buf]\<rparr>)) \<le> maxsize" using True by simp
    from Cons.IH [OF rest this] show ?thesis
      by (simp add: s buf)
  next
    case False
    with Cons.prems(2) have full: "length (tx_q b) = maxsize" by simp
    have s: "send_pcm p b = b\<lparr>logged := logged b @ [TxQueueFull]\<rparr>"
      using False by (simp add: send_pcm_cases [OF buf])
    have "length (tx_q (b\<lparr>logged := logged b @ [TxQueueFull]\<rparr>)) \<le> maxsize" using full by simp
    from Cons.IH [OF rest this] show ?thesis
      by (simp add: s full)
  qed
qed

lemma fold_on_sound_received:
  assumes "length (rx_q b) \<le> maxsize"
  shows "rx_q (fold on_sound_received cs b) = take maxsize (rx_q b @ cs)
       \<and> length (filter (\<lambda>m. m = RxQueueFull) (logged (fold on_sound_received cs b)))
          = length (filter (\<lambda>m. m = RxQueueFull) (logged b))
            + (length (rx_q b) + length cs - maxsize)"
  using assms
proof (induction cs arbitrary: b)
  case Nil
  then show ?case by simp
next
  case (Cons c cs)
  show ?case
  proof (cases "length (rx_q b) < maxsize")
    case True
    then have s: "on_sound_received c b = b\<lparr>rx_q := rx_q b @ [c]\<rparr>"
      by (simp add: on_sound_received_cases)
    have "length (rx_q (b\<lparr>rx_q := rx_q b @ [c]\<rparr>)) \<le> maxsize" using True by simp
    from Cons.IH [OF this] show ?thesis
      by (simp add: s)
  next
    case False
    with Cons.prems have full: "length (rx_q b) = maxsize" by simp
    have s: "on_sound_received c b = b\<lparr>logged := logged b @ [RxQueueFull]\<rparr>"
      using False by (simp add: on_sound_received_cases)
    have "length (rx_q (b\<lparr>logged := logged b @ [RxQueueFull]\<rparr>)) \<le> maxsize" using full by simp
    from Cons.IH [OF this] show ?thesis
      by (simp add: s full)
  qed
qed


text \<open>
  Claim C6, as the code has it. Both queues hold at most 200 frames after every run of
  the bridge. Putting a frame on a full queue returns at once, leaves the queue and
  every other attribute of the bridge as they were and writes one debug line to the
  log; no counter is kept. From a new bridge with nothing taken out, the queue holds
  the first 200 frames put in, and the number of debug lines is the number of puts
  less 200.
\<close>

theorem queues_bounded_drops_logged:
  "maxsize = 200
   \<and> (\<forall>es b'. bridge_run es new_bridge = Some b' \<longrightarrow>
         length (tx_q b') \<le> maxsize \<and> length (rx_q b') \<le> maxsize)
   \<and> (maxsize \<le> length (tx_q b) \<and> pcm_buf p \<noteq> None \<longrightarrow>
         send_pcm p b = b\<lparr>logged := logged b @ [TxQueueFull]\<rparr>)
   \<and> (maxsize \<le> length (rx_q b) \<longrightarrow>
         on_sound_received c b = b\<lparr>logged := logged b @ [RxQueueFull]\<rparr>)
   \<and> ((\<forall>p\<in>set ps. pcm_buf p \<noteq> None) \<longrightarrow>
         tx_q (fold send_pcm ps new_bridge) = take maxsize (map (the \<circ> pcm_buf) ps)
         \<and> length (filter (\<lambda>m. m = TxQueueFull) (logged (fold send_pcm ps new_bridge)))
             = length ps - maxsize)
   \<and> rx_q (fold on_sound_received cs new_bridge) = take maxsize cs
   \<and> length (filter (\<lambda>m. m = RxQueueFull) (logged (fold on_sound_received cs new_bridge)))
       = length cs - maxsize"
proof -
  have new: "tx_q new_bridge = []" "rx_q new_bridge = []" "logged new_bridge = []"
    by (simp_all add: new_bridge_def)
  have 1: "\<forall>es b'. bridge_run es new_bridge = Some b' \<longrightarrow>
         length (tx_q b') \<le> maxsize \<and> length (rx_q b') \<le> maxsize"
    using bridge_run_bounded [of _ new_bridge] by (simp add: new)
  have 2: "maxsize \<le> length (tx_q b) \<and> pcm_buf p \<noteq> None \<longrightarrow>
         send_pcm p b = b\<lparr>logged := logged b @ [TxQueueFull]\<rparr>"
    by (auto simp: send_pcm_cases)
  have 3: "maxsize \<le> length (rx_q b) \<longrightarrow>
         on_sound_received c b = b\<lparr>logged := logged b @ [RxQueueFull]\<rparr>"
    by (simp add: on_sound_received_cases)
  have 4: "(\<forall>p\<in>set ps. pcm_buf p \<noteq> None) \<longrightarrow>
         tx_q (fold send_pcm ps new_bridge) = take maxsize (map (the \<circ> pcm_buf) ps)
         \<and> length (filter (\<lambda>m. m = TxQueueFull) (logged (fold send_pcm ps new_bridge)))
             = length ps - maxsize"
    using fold_send_pcm [of ps new_bridge] by (simp add: new)
  have 5: "rx_q (fold on_sound_received cs new_bridge) = take maxsize cs
   \<and> length (filter (\<lambda>m. m = RxQueueFull) (logged (fold on_sound_received cs new_bridge)))
       = length cs - maxsize"
    using fold_on_sound_received [of new_bridge cs] by (simp add: new)
  from 1 2 3 4 5 show ?thesis
    by (simp add: maxsize_def)
qed

theorem queues_bounded_drops_logged_witness:
  "maxsize \<le> length (tx_q (new_bridge\<lparr>tx_q := replicate 200 [], rx_q := replicate 200 []\<rparr>))
   \<and> pcm_buf (Bytes [1, 2]) \<noteq> None
   \<and> send_pcm (Bytes [1, 2]) (new_bridge\<lparr>tx_q := replicate 200 [], rx_q := replicate 200 []\<rparr>)
       = new_bridge\<lparr>tx_q := replicate 200 [], rx_q := replicate 200 [], logged := [TxQueueFull]\<rparr>
   \<and> maxsize \<le> length (rx_q (new_bridge\<lparr>tx_q := replicate 200 [], rx_q := replicate 200 []\<rparr>))
   \<and> on_sound_received [3] (new_bridge\<lparr>tx_q := replicate 200 [], rx_q := replicate 200 []\<rparr>)
       = new_bridge\<lparr>tx_q := replicate 200 [], rx_q := replicate 200 [], logged := [RxQueueFull]\<rparr>
   \<and> pcm_buf (NdArray [1]) \<noteq> None
   \<and> tx_q (fold send_pcm [Bytes [1, 2], NdArray [1]] new_bridge) = [[1, 2], [1, 0]]
   \<and> bridge_run [SendPcm (Bytes [1, 2])] new_bridge = Some (new_bridge\<lparr>tx_q := [[1, 2]]\<rparr>)
   \<and> length (tx_q (new_bridge\<lparr>tx_q := [[1, 2]]\<rparr>)) \<le> maxsize"
proof -
  let ?b = "new_bridge\<lparr>tx_q := replicate 200 [], rx_q := replicate 200 []\<rparr>"
  have h1: "maxsize \<le> length (tx_q ?b)" "maxsize \<le> length (rx_q ?b)"
    by (simp_all add: maxsize_def)
  have h2: "pcm_buf (Bytes [1, 2]) \<noteq> None" "\<forall>p\<in>set [Bytes [1, 2], NdArray [1]]. pcm_buf p \<noteq> None"
    by (simp_all add: pcm_buf_def)
  have h3: "bridge_run [SendPcm (Bytes [1, 2])] new_bridge = Some (new_bridge\<lparr>tx_q := [[1, 2]]\<rparr>)"
    by (simp add: send_pcm_def pcm_buf_def put_nowait_def maxsize_def new_bridge_def)
  have lg: "logged ?b = []" by (simp add: new_bridge_def)
  have bs: "map (the \<circ> pcm_buf) [Bytes [1, 2], NdArray [1]] = [[1, 2], [1, 0]]"
    by (simp add: pcm_buf_def tobytes_def astype_int16_def)
  from queues_bounded_drops_logged
         [of ?b "Bytes [1, 2]" "[3]" "[Bytes [1, 2], NdArray [1]]" "[]"] h1 h2 h3 lg bs
  show ?thesis
    by (simp add: maxsize_def)
qed

text \<open>
  Claim C6 as stated has each drop increment a drop counter. On the code: a frame sent
  to a bridge whose outbound queue holds 200 frames, and a frame received by a bridge
  whose inbound queue holds 200 frames. After the drop every attribute of the bridge
  has the value it had before; the one trace of the drop is the debug line.
\<close>

theorem full_queue_drop_leaves_no_count:
  "send_pcm (Bytes [0, 0]) (new_bridge\<lparr>tx_q := replicate 200 [0, 0]\<rparr>)
     = new_bridge\<lparr>tx_q := replicate 200 [0, 0], logged := [TxQueueFull]\<rparr>
   \<and> on_sound_received [0, 0] (new_bridge\<lparr>rx_q := replicate 200 [0, 0]\<rparr>)
     = new_bridge\<lparr>rx_q := replicate 200 [0, 0], logged := [RxQueueFull]\<rparr>"
  by (simp add: send_pcm_def pcm_buf_def on_sound_received_def put_nowait_def maxsize_def
        new_bridge_def)

subsection \<open>The accumulator\<close>

lemma compute_fields:
  "accum (snd (compute_frame_bytes_if_ready b)) = accum b"
  "tx_q (snd (compute_frame_bytes_if_ready b)) = tx_q b"
  "add_sound_calls (snd (compute_frame_bytes_if_ready b)) = add_sound_calls b"
  "w_status (snd (compute_frame_bytes_if_ready b)) = w_status b"
  "shutdown (snd (compute_frame_bytes_if_ready b)) = shutdown b"
  "encoder_framesize (snd (compute_frame_bytes_if_ready b)) = encoder_framesize b"
  "frame_bytes (snd (compute_frame_bytes_if_ready b)) = fst (compute_frame_bytes_if_ready b)"
  by (simp_all add: compute_frame_bytes_if_ready_def Let_def split: option.splits)

lemma compute_unknown:
  "encoder_framesize b = None \<Longrightarrow> fst (compute_frame_bytes_if_ready b) = frame_bytes b"
  by (simp add: compute_frame_bytes_if_ready_def)

lemma compute_depends:
  "frame_bytes b' = frame_bytes b \<Longrightarrow> encoder_framesize b' = encoder_framesize b \<Longrightarrow>
   fst (compute_frame_bytes_if_ready b') = fst (compute_frame_bytes_if_ready b)"
  by (simp add: compute_frame_bytes_if_ready_def Let_def split: option.splits)

lemma compute_stable:
  "fst (compute_frame_bytes_if_ready (snd (compute_frame_bytes_if_ready b)))
     = fst (compute_frame_bytes_if_ready b)"
  by (simp add: compute_frame_bytes_if_ready_def Let_def truthy_def split: option.splits)

lemma tx_worker_iter_chunk:
  assumes "w_status b = Running" and "\<not> shutdown b" and "tx_q b = [c]"
  shows "tx_worker_iter b =
           Some ((snd (compute_frame_bytes_if_ready (b\<lparr>tx_q := [], accum := accum b @ c\<rparr>)))
                   \<lparr>w_frame_bytes := Some (fst (compute_frame_bytes_if_ready
                        (b\<lparr>tx_q := [], accum := accum b @ c\<rparr>)))\<rparr>)"
  using assms
  by (simp add: tx_worker_iter_def get_timeout_def Let_def split_beta)

lemma feed_simps: "feed [] = []" "feed (c # cs) = SendPcm (Bytes c) # TxWorkerIter # feed cs"
  by (simp_all add: feed_def)

lemma send_then_iter:
  assumes "w_status b = Running" and "\<not> shutdown b" and "tx_q b = []"
  shows "\<exists>b'. bridge_run [SendPcm (Bytes c), TxWorkerIter] b = Some b'
           \<and> accum b' = accum b @ c \<and> add_sound_calls b' = add_sound_calls b
           \<and> tx_q b' = [] \<and> w_status b' = Running \<and> \<not> shutdown b'
           \<and> encoder_framesize b' = encoder_framesize b
           \<and> (encoder_framesize b = None \<longrightarrow> frame_bytes b' = frame_bytes b)
           \<and> w_frame_bytes b' = Some (fst (compute_frame_bytes_if_ready b))
           \<and> fst (compute_frame_bytes_if_ready b') = fst (compute_frame_bytes_if_ready b)"
proof -
  let ?b1 = "b\<lparr>tx_q := [c]\<rparr>"
  let ?b2 = "b\<lparr>tx_q := [], accum := accum b @ c\<rparr>"
  let ?b3 = "snd (compute_frame_bytes_if_ready ?b2)"
  let ?b4 = "?b3\<lparr>w_frame_bytes := Some (fst (compute_frame_bytes_if_ready ?b2))\<rparr>"
  have s: "send_pcm (Bytes c) b = ?b1"
    using assms(3) by (simp add: send_pcm_def pcm_buf_def put_nowait_def maxsize_def)
  have "tx_worker_iter ?b1 = Some ?b4"
    using tx_worker_iter_chunk [of ?b1 c] assms by simp
  then have run: "bridge_run [SendPcm (Bytes c), TxWorkerIter] b = Some ?b4"
    by (simp add: s)
  have same: "fst (compute_frame_bytes_if_ready ?b2) = fst (compute_frame_bytes_if_ready b)"
    by (rule compute_depends) simp_all
  have st: "fst (compute_frame_bytes_if_ready ?b4) = fst (compute_frame_bytes_if_ready ?b3)"
    by (rule compute_depends) simp_all
  have f: "accum ?b4 = accum b @ c" "add_sound_calls ?b4 = add_sound_calls b" "tx_q ?b4 = []"
      "w_status ?b4 = Running" "\<not> shutdown ?b4" "encoder_framesize ?b4 = encoder_framesize b"
    using assms by (simp_all add: compute_fields)
  have g: "encoder_framesize b = None \<longrightarrow> frame_bytes ?b4 = frame_bytes b"
    by (simp add: compute_fields compute_unknown)
  have h: "w_frame_bytes ?b4 = Some (fst (compute_frame_bytes_if_ready b))"
    by (simp add: same)
  have i: "fst (compute_frame_bytes_if_ready ?b4) = fst (compute_frame_bytes_if_ready b)"
    using st compute_stable [of ?b2] same by simp
  show ?thesis
    by (rule exI [of _ ?b4], intro conjI) (fact run f g h i)+
qed

lemma feed_run:
  assumes "w_status b = Running" and "\<not> shutdown b" and "tx_q b = []"
  shows "\<exists>b'. bridge_run (feed cs) b = Some b'
           \<and> accum b' = accum b @ concat cs \<and> add_sound_calls b' = add_sound_calls b
           \<and> tx_q b' = [] \<and> w_status b' = Running \<and> \<not> shutdown b'
           \<and> encoder_framesize b' = encoder_framesize b
           \<and> (encoder_framesize b = None \<longrightarrow> frame_bytes b' = frame_bytes b)
           \<and> w_frame_bytes b' =
               (if cs = [] then w_frame_bytes b else Some (fst (compute_frame_bytes_if_ready b)))
           \<and> fst (compute_frame_bytes_if_ready b') = fst (compute_frame_bytes_if_ready b)"
  using assms
proof (induction cs arbitrary: b)
  case Nil
  then show ?case by (simp add: feed_simps)
next
  case (Cons c cs)
  from send_then_iter [OF Cons.prems, of c] obtain b1 where
    s: "bridge_run [SendPcm (Bytes c), TxWorkerIter] b = Some b1"
       "accum b1 = accum b @ c" "add_sound_calls b1 = add_sound_calls b"
       "tx_q b1 = []" "w_status b1 = Running" "\<not> shutdown b1"
       "encoder_framesize b1 = encoder_framesize b"
       "encoder_framesize b = None \<longrightarrow> frame_bytes b1 = frame_bytes b"
       "w_frame_bytes b1 = Some (fst (compute_frame_bytes_if_ready b))"
       "fst (compute_frame_bytes_if_ready b1) = fst (compute_frame_bytes_if_ready b)"
    by (elim exE conjE) (rule that, assumption+)
  from Cons.IH [OF s(5) s(6) s(4)] obtain b' where
    r: "bridge_run (feed cs) b1 = Some b'"
       "accum b' = accum b1 @ concat cs" "add_sound_calls b' = add_sound_calls b1"
       "tx_q b' = []" "w_status b' = Running" "\<not> shutdown b'"
       "encoder_framesize b' = encoder_framesize b1"
       "encoder_framesize b1 = None \<longrightarrow> frame_bytes b' = frame_bytes b1"
       "w_frame_bytes b' =
               (if cs = [] then w_frame_bytes b1 else Some (fst (compute_frame_bytes_if_ready b1)))"
       "fst (compute_frame_bytes_if_ready b') = fst (compute_frame_bytes_if_ready b1)"
    by (elim exE conjE) (rule that, assumption+)
  have "bridge_run (feed (c # cs)) b = bridge_run (feed cs) b1"
    using s(1) bridge_run_append [of "[SendPcm (Bytes c), TxWorkerIter]" "feed cs" b]
    by (simp add: feed_simps)
  then have run: "bridge_run (feed (c # cs)) b = Some b'"
    using r(1) by simp
  have w: "w_frame_bytes b' = (if c # cs = [] then w_frame_bytes b
             else Some (fst (compute_frame_bytes_if_ready b)))"
    using r(9) s(9,10) by simp
  have e: "encoder_framesize b = None \<longrightarrow> frame_bytes b' = frame_bytes b"
    using r(8) s(7,8) by simp
  have a: "accum b' = accum b @ concat (c # cs)" "add_sound_calls b' = add_sound_calls b"
      "encoder_framesize b' = encoder_framesize b"
      "fst (compute_frame_bytes_if_ready b') = fst (compute_frame_bytes_if_ready b)"
    using r s by simp_all
  show ?case
    by (rule exI [of _ b'], intro conjI) (fact run a r(4,5,6) e w)+
qed



lemma bridge_run_Start:
  "bridge_run (Start # es) new_bridge
     = bridge_run es (new_bridge\<lparr>w_status := Running, logged := [TxWorkerStarted]\<rparr>)"
  by (simp add: new_bridge_def)

lemma feed_unknown:
  "\<exists>b1. bridge_run (Start # feed cs) new_bridge = Some b1
      \<and> accum b1 = concat cs \<and> add_sound_calls b1 = [] \<and> tx_q b1 = []
      \<and> w_status b1 = Running \<and> \<not> shutdown b1 \<and> frame_bytes b1 = None
      \<and> w_frame_bytes b1 = (if cs = [] then None else Some None)"
proof -
  let ?b0 = "new_bridge\<lparr>w_status := Running, logged := [TxWorkerStarted]\<rparr>"
  have b0: "w_status ?b0 = Running" "\<not> shutdown ?b0" "tx_q ?b0 = []"
    by (simp_all add: new_bridge_def)
  have n0: "accum ?b0 = []" "add_sound_calls ?b0 = []" "encoder_framesize ?b0 = None"
      "frame_bytes ?b0 = None" "w_frame_bytes ?b0 = None"
    by (simp_all add: new_bridge_def)
  have c0: "fst (compute_frame_bytes_if_ready ?b0) = None"
    by (simp add: compute_unknown n0)
  from feed_run [OF b0, of cs] obtain b1 where
    p: "bridge_run (feed cs) ?b0 = Some b1"
       "accum b1 = accum ?b0 @ concat cs" "add_sound_calls b1 = add_sound_calls ?b0"
       "tx_q b1 = []" "w_status b1 = Running" "\<not> shutdown b1"
       "encoder_framesize b1 = encoder_framesize ?b0"
       "encoder_framesize ?b0 = None \<longrightarrow> frame_bytes b1 = frame_bytes ?b0"
       "w_frame_bytes b1 =
          (if cs = [] then w_frame_bytes ?b0 else Some (fst (compute_frame_bytes_if_ready ?b0)))"
       "fst (compute_frame_bytes_if_ready b1) = fst (compute_frame_bytes_if_ready ?b0)"
    by (elim exE conjE) (rule that, assumption+)
  have 1: "bridge_run (Start # feed cs) new_bridge = Some b1"
    unfolding bridge_run_Start by (fact p(1))
  have 2: "accum b1 = concat cs" "add_sound_calls b1 = []" "frame_bytes b1 = None"
      "w_frame_bytes b1 = (if cs = [] then None else Some None)"
    using p(2,3,8,9) by (simp_all add: n0 c0)
  show ?thesis
    by (rule exI [of _ b1], intro conjI) (fact 1 2 p(4,5,6))+
qed


lemma worker_exit_unknown:
  "\<exists>b'. bridge_run (Start # feed cs @ [Stop, TxWorkerIter]) new_bridge = Some b'
      \<and> w_status b' = Raised (if cs = [] then UnboundLocalError else TypeError)
      \<and> add_sound_calls b' = [] \<and> accum b' = concat cs"
proof -
  from feed_unknown [of cs] obtain b1 where
    p: "bridge_run (Start # feed cs) new_bridge = Some b1"
       "accum b1 = concat cs" "add_sound_calls b1 = []" "tx_q b1 = []"
       "w_status b1 = Running" "\<not> shutdown b1" "frame_bytes b1 = None"
       "w_frame_bytes b1 = (if cs = [] then None else Some None)"
    by (elim exE conjE) (rule that, assumption+)
  let ?b' = "b1\<lparr>shutdown := True,
                w_status := Raised (if cs = [] then UnboundLocalError else TypeError)\<rparr>"
  have u: "bridge_run [Stop, TxWorkerIter] b1 = Some ?b'"
    using p(5,8) by (simp add: tx_worker_iter_def tx_worker_after_loop_def)
  have "bridge_run ((Start # feed cs) @ [Stop, TxWorkerIter]) new_bridge = Some ?b'"
    unfolding bridge_run_append p(1) using u by simp
  then have 1: "bridge_run (Start # feed cs @ [Stop, TxWorkerIter]) new_bridge = Some ?b'"
    by simp
  have 2: "w_status ?b' = Raised (if cs = [] then UnboundLocalError else TypeError)"
      "add_sound_calls ?b' = []" "accum ?b' = concat cs"
    using p(2,3) by simp_all
  show ?thesis
    by (rule exI [of _ ?b'], intro conjI) (fact 1 2)+
qed

lemma worker_exit_known:
  assumes "py_int (ef * 48000 * 2 * 1) = fb" and "0 < fb" and "cs2 \<noteq> []"
  shows "\<exists>b'. bridge_run (Start # feed cs1 @ EncoderInit ef # feed cs2 @ [Stop, TxWorkerIter])
                  new_bridge = Some b'
             \<and> w_status b' = Exited
             \<and> concat (add_sound_calls b') @ accum b' = concat (cs1 @ cs2)
             \<and> (\<forall>f\<in>set (add_sound_calls b'). int (length f) = fb)
             \<and> int (length (accum b')) < fb"
proof -
  from feed_unknown [of cs1] obtain b1 where
    p1: "bridge_run (Start # feed cs1) new_bridge = Some b1"
       "accum b1 = concat cs1" "add_sound_calls b1 = []" "tx_q b1 = []"
       "w_status b1 = Running" "\<not> shutdown b1" "frame_bytes b1 = None"
       "w_frame_bytes b1 = (if cs1 = [] then None else Some None)"
    by (elim exE conjE) (rule that, assumption+)
  from assms(1,2) have ef: "ef \<noteq> 0"
    by (auto simp: py_int_def)
  let ?b2 = "b1\<lparr>encoder_framesize := Some ef\<rparr>"
  have b2: "w_status ?b2 = Running" "\<not> shutdown ?b2" "tx_q ?b2 = []"
    using p1(4,5,6) by simp_all
  have c2: "fst (compute_frame_bytes_if_ready ?b2) = Some fb"
    using p1(7) ef assms(1)
    by (simp add: compute_frame_bytes_if_ready_def truthy_def Let_def)
  from feed_run [OF b2, of cs2] obtain b3 where
    p3: "bridge_run (feed cs2) ?b2 = Some b3"
       "accum b3 = accum ?b2 @ concat cs2" "add_sound_calls b3 = add_sound_calls ?b2"
       "tx_q b3 = []" "w_status b3 = Running" "\<not> shutdown b3"
       "encoder_framesize b3 = encoder_framesize ?b2"
       "encoder_framesize ?b2 = None \<longrightarrow> frame_bytes b3 = frame_bytes ?b2"
       "w_frame_bytes b3 =
          (if cs2 = [] then w_frame_bytes ?b2 else Some (fst (compute_frame_bytes_if_ready ?b2)))"
       "fst (compute_frame_bytes_if_ready b3) = fst (compute_frame_bytes_if_ready ?b2)"
    by (elim exE conjE) (rule that, assumption+)
  have q3: "accum b3 = concat cs1 @ concat cs2" "add_sound_calls b3 = []"
      "w_frame_bytes b3 = Some (Some fb)"
    using p3(2,3,9) p1(2,3) assms(3) by (simp_all add: c2)
  let ?b3 = "b3\<lparr>shutdown := True\<rparr>"
  from flush_loop_total [OF assms(2), of ?b3] obtain frames r where
    fl: "flush_loop fb ?b3
           = Some (?b3\<lparr>accum := r, add_sound_calls := add_sound_calls ?b3 @ frames\<rparr>)"
        "concat frames @ r = accum ?b3"
        "\<forall>f\<in>set frames. int (length f) = fb" "int (length r) < fb"
    by (elim exE conjE) (rule that, assumption+)
  let ?b4 = "?b3\<lparr>accum := r, add_sound_calls := add_sound_calls ?b3 @ frames\<rparr>"
  let ?b5 = "?b4\<lparr>logged := logged ?b4 @ [TxWorkerExiting], w_status := Exited\<rparr>"
  have "tx_worker_after_loop ?b3 = Some ?b5"
    using q3(3) fl(1) by (simp add: tx_worker_after_loop_def)
  then have k: "bridge_run [Stop, TxWorkerIter] b3 = Some ?b5"
    using p3(5) by (simp add: tx_worker_iter_def)
  have "bridge_run ((Start # feed cs1) @ EncoderInit ef # feed cs2 @ [Stop, TxWorkerIter]) new_bridge
          = bridge_run (feed cs2 @ [Stop, TxWorkerIter]) ?b2"
    unfolding bridge_run_append [of "Start # feed cs1"] p1(1) by simp
  also have "\<dots> = Some ?b5"
    unfolding bridge_run_append [of "feed cs2"] p3(1) using k by simp
  finally have 1: "bridge_run (Start # feed cs1 @ EncoderInit ef # feed cs2 @ [Stop, TxWorkerIter])
      new_bridge = Some ?b5"
    by simp
  have 2: "w_status ?b5 = Exited" "concat (add_sound_calls ?b5) @ accum ?b5 = concat (cs1 @ cs2)"
      "\<forall>f\<in>set (add_sound_calls ?b5). int (length f) = fb" "int (length (accum ?b5)) < fb"
    using fl(2,3,4) q3(1,2) by simp_all
  show ?thesis
    by (rule exI [of _ ?b5], intro conjI) (fact 1 2)+
qed

text \<open>
  Claim C4. Chunks \<open>cs1\<close> reach the worker while the frame size is unknown, chunks
  \<open>cs2\<close> after the encoder has reported a frame time that gives a positive frame size
  \<open>fb\<close>; then the bridge is stopped. The worker returns; the frames it has handed to
  \<^verbatim>\<open>add_sound\<close>, in order, followed by what is left in the accumulator, are the pushed
  chunks in order; each frame has exactly \<open>fb\<close> bytes, and less than a frame is left.
  When the frame size stays unknown, nothing is handed to \<^verbatim>\<open>add_sound\<close> and the
  accumulator holds all chunks.
\<close>

theorem accumulator_conserves_bytes:
  assumes "py_int (ef * 48000 * 2 * 1) = fb" and "0 < fb" and "cs2 \<noteq> []"
  shows "(\<exists>b'. bridge_run (Start # feed cs1 @ EncoderInit ef # feed cs2 @ [Stop, TxWorkerIter])
                  new_bridge = Some b'
             \<and> w_status b' = Exited
             \<and> concat (add_sound_calls b') @ accum b' = concat (cs1 @ cs2)
             \<and> (\<forall>f\<in>set (add_sound_calls b'). int (length f) = fb)
             \<and> int (length (accum b')) < fb)
       \<and> (\<exists>b'. bridge_run (Start # feed cs @ [Stop, TxWorkerIter]) new_bridge = Some b'
             \<and> w_status b' = Raised (if cs = [] then UnboundLocalError else TypeError)
             \<and> add_sound_calls b' = [] \<and> accum b' = concat cs)"
  using worker_exit_known [OF assms] worker_exit_unknown by (rule conjI)

theorem accumulator_conserves_bytes_witness:
  "py_int ((1/48000) * 48000 * 2 * 1) = 2 \<and> (0::int) < 2 \<and> [[2, 3 :: byte]] \<noteq> []
   \<and> (\<exists>b'. bridge_run (Start # feed [[1]] @ EncoderInit (1/48000) # feed [[2, 3]]
                           @ [Stop, TxWorkerIter]) new_bridge = Some b'
         \<and> w_status b' = Exited
         \<and> concat (add_sound_calls b') @ accum b' = [1, 2, 3]
         \<and> (\<forall>f\<in>set (add_sound_calls b'). int (length f) = 2)
         \<and> int (length (accum b')) < 2)
   \<and> (\<exists>b'. bridge_run (Start # feed [[1]] @ [Stop, TxWorkerIter]) new_bridge = Some b'
         \<and> w_status b' = Raised TypeError \<and> add_sound_calls b' = [] \<and> accum b' = [1])"
proof -
  have h: "py_int ((1/48000) * 48000 * 2 * 1) = 2" "(0::int) < 2" "[[2, 3 :: byte]] \<noteq> []"
    by (simp_all add: py_int_def)
  from accumulator_conserves_bytes [OF h, of "[[1]]" "[[1]]"] h show ?thesis
    by simp
qed

subsection \<open>The worker while the bridge runs\<close>

lemma tx_worker_iter_running:
  assumes "\<not> shutdown b"
  shows "\<exists>b'. tx_worker_iter b = Some b' \<and> add_sound_calls b' = add_sound_calls b
              \<and> \<not> shutdown b'"
  using assms
  by (auto simp: tx_worker_iter_def get_timeout_def compute_frame_bytes_if_ready_def Let_def
      split: list.splits option.splits)

text \<open>Until \<^verbatim>\<open>stop()\<close> is called, no event makes the worker call \<^verbatim>\<open>add_sound\<close>.\<close>

lemma no_add_sound_before_stop:
  assumes "\<not> shutdown b" and "Stop \<notin> set es"
  shows "\<exists>b'. bridge_run es b = Some b' \<and> add_sound_calls b' = add_sound_calls b
              \<and> \<not> shutdown b'"
  using assms
proof (induction es arbitrary: b)
  case Nil
  then show ?case by simp
next
  case (Cons e es)
  have "\<exists>b1. bridge_step e b = Some b1 \<and> add_sound_calls b1 = add_sound_calls b \<and> \<not> shutdown b1"
  proof (cases e)
    case TxWorkerIter
    then show ?thesis using tx_worker_iter_running [OF Cons.prems(1)] by simp
  next
    case Stop
    with Cons.prems(2) show ?thesis by simp
  next
    case (SendPcm p)
    then show ?thesis using Cons.prems(1)
      by (auto simp: send_pcm_def put_nowait_def split: option.splits)
  next
    case (SoundReceived c)
    then show ?thesis using Cons.prems(1)
      by (auto simp: on_sound_received_def put_nowait_def)
  qed (use Cons.prems in auto)
  then obtain b1 where s: "bridge_step e b = Some b1" "add_sound_calls b1 = add_sound_calls b"
      "\<not> shutdown b1" by blast
  from Cons.prems(2) have "Stop \<notin> set es" by simp
  from Cons.IH [OF s(3) this] s show ?case by simp
qed

lemmas bridge_defs = send_pcm_def pcm_buf_def put_nowait_def maxsize_def get_timeout_def
  tx_worker_iter_def compute_frame_bytes_if_ready_def truthy_def py_int_def Let_def

text \<open>
  Claim C1. While the frame size is unknown nothing sent reaches \<^verbatim>\<open>add_sound\<close>, and at
  the moment the frame size becomes known the bytes accumulated so far are to be
  dispatched as whole frames. On the code: a chunk of 1920 bytes is sent and taken by
  the worker, the encoder reports 20 ms (1920 bytes), a second chunk of 1920 bytes is
  sent and taken. The worker now knows the frame size and holds two whole frames, and
  has not called \<^verbatim>\<open>add_sound\<close>. Only after \<^verbatim>\<open>stop()\<close> does it hand over the two
  frames.
\<close>

theorem tx_worker_holds_whole_frames_until_stop:
  "bridge_run
     [Start, SendPcm (Bytes (replicate 1920 0)), TxWorkerIter, EncoderInit (2/100),
      SendPcm (Bytes (replicate 1920 1)), TxWorkerIter]
     new_bridge
   = Some \<lparr> tx_q = [], rx_q = [], frame_bytes = Some 1920,
            accum = replicate 1920 0 @ replicate 1920 1, shutdown = False,
            encoder_framesize = Some (2/100), add_sound_calls = [],
            logged = [TxWorkerStarted, EncoderFrame 1920],
            w_status = Running, w_frame_bytes = Some (Some 1920) \<rparr>
   \<and> bridge_run
     [Start, SendPcm (Bytes (replicate 1920 0)), TxWorkerIter, EncoderInit (2/100),
      SendPcm (Bytes (replicate 1920 1)), TxWorkerIter, Stop, TxWorkerIter]
     new_bridge
   = Some \<lparr> tx_q = [], rx_q = [], frame_bytes = Some 1920,
            accum = [], shutdown = True,
            encoder_framesize = Some (2/100),
            add_sound_calls = [replicate 1920 0, replicate 1920 1],
            logged = [TxWorkerStarted, EncoderFrame 1920, TxWorkerExiting],
            w_status = Exited, w_frame_bytes = Some (Some 1920) \<rparr>"
proof -
  let ?b = "\<lparr> tx_q = [], rx_q = [], frame_bytes = Some 1920,
            accum = replicate 1920 0 @ replicate 1920 1, shutdown = False,
            encoder_framesize = Some (2/100), add_sound_calls = [],
            logged = [TxWorkerStarted, EncoderFrame 1920],
            w_status = Running, w_frame_bytes = Some (Some 1920) \<rparr>"
  have 1: "bridge_run
     [Start, SendPcm (Bytes (replicate 1920 0)), TxWorkerIter, EncoderInit (2/100),
      SendPcm (Bytes (replicate 1920 1)), TxWorkerIter] new_bridge = Some ?b"
    by (simp add: new_bridge_def bridge_defs)
  have f3: "flush_loop 1920 (?b\<lparr>shutdown := True, accum := [],
               add_sound_calls := [replicate 1920 0, replicate 1920 1]\<rparr>)
            = Some (?b\<lparr>shutdown := True, accum := [],
               add_sound_calls := [replicate 1920 0, replicate 1920 1]\<rparr>)"
    by (subst flush_loop.simps) simp
  have f2: "flush_loop 1920 (?b\<lparr>shutdown := True, accum := replicate 1920 1,
               add_sound_calls := [replicate 1920 0]\<rparr>)
            = Some (?b\<lparr>shutdown := True, accum := [],
               add_sound_calls := [replicate 1920 0, replicate 1920 1]\<rparr>)"
    by (subst flush_loop.simps) (simp add: slice_to_def del_to_def f3 [simplified])
  have f1: "flush_loop 1920 (?b\<lparr>shutdown := True\<rparr>)
            = Some (?b\<lparr>shutdown := True, accum := [],
               add_sound_calls := [replicate 1920 0, replicate 1920 1]\<rparr>)"
    by (subst flush_loop.simps) (simp add: slice_to_def del_to_def f2 [simplified])
  have 2: "bridge_run [Stop, TxWorkerIter] ?b
     = Some \<lparr> tx_q = [], rx_q = [], frame_bytes = Some 1920,
            accum = [], shutdown = True,
            encoder_framesize = Some (2/100),
            add_sound_calls = [replicate 1920 0, replicate 1920 1],
            logged = [TxWorkerStarted, EncoderFrame 1920, TxWorkerExiting],
            w_status = Exited, w_frame_bytes = Some (Some 1920) \<rparr>"
    by (simp add: tx_worker_iter_def tx_worker_after_loop_def f1 [simplified])
  have "bridge_run
     ([Start, SendPcm (Bytes (replicate 1920 0)), TxWorkerIter, EncoderInit (2/100),
      SendPcm (Bytes (replicate 1920 1)), TxWorkerIter] @ [Stop, TxWorkerIter]) new_bridge
     = bridge_run [Stop, TxWorkerIter] ?b"
    unfolding bridge_run_append 1 by simp
  with 1 2 show ?thesis by simp
qed

subsection \<open>Arguments that \<^verbatim>\<open>send_pcm\<close> ignores\<close>

text \<open>
  Claim C10. A call of \<^verbatim>\<open>send_pcm\<close> with an argument that is neither an ndarray nor a
  bytes object returns and leaves the bridge as it was: the outbound queue, the
  accumulator and every other attribute are unchanged. In any sequence of events the
  call can be left out without changing what follows, so nothing derived from that
  argument reaches the session.
\<close>

theorem send_pcm_other_is_noop:
  "send_pcm (Other v) b = b
   \<and> bridge_run (es1 @ SendPcm (Other v) # es2) b = bridge_run (es1 @ es2) b"
proof -
  have 1: "send_pcm (Other v) b' = b'" for b'
    by (simp add: send_pcm_def pcm_buf_def)
  have "bridge_run (es1 @ SendPcm (Other v) # es2) b = bridge_run (es1 @ es2) b"
    by (simp add: bridge_run_append 1 split: option.splits)
  with 1 show ?thesis by simp
qed

subsection \<open>Keying\<close>




subsection \<open>Rounding\<close>

lemma round_half_even_of_int: "round_half_even (of_int m) = m"
  by (simp add: round_half_even_def)

lemma round_half_even_near:
  assumes "of_int m - 1/2 < x" and "x < of_int m + 1/2"
  shows "round_half_even x = m"
proof (cases "of_int m \<le> x")
  case True
  then have "\<lfloor>x\<rfloor> = m" using assms by linarith
  then show ?thesis using assms by (simp add: round_half_even_def)
next
  case False
  then have "\<lfloor>x\<rfloor> = m - 1" using assms by linarith
  then show ?thesis using assms False by (simp add: round_half_even_def)
qed

lemma round_half_even_tie:
  assumes "x = of_int m + 1/2" and "even m"
  shows "round_half_even x = m"
proof -
  have "\<lfloor>x\<rfloor> = m" using assms(1) by linarith
  then show ?thesis using assms by (simp add: round_half_even_def)
qed

lemma round_to_binade:
  assumes "2 powr of_int e \<le> \<bar>x\<bar>" and "\<bar>x\<bar> < 2 powr of_int (e + 1)"
  shows "round_to p x
           = of_int (round_half_even (x / 2 powr of_int (e - int p + 1)))
               * 2 powr of_int (e - int p + 1)"
proof -
  have pos: "0 < \<bar>x\<bar>" using assms(1) by (smt (verit) powr_gt_zero)
  have "\<lfloor>log 2 \<bar>x\<bar>\<rfloor> = e"
    using assms pos by (simp add: floor_log_eq_powr_iff)
  moreover have "x \<noteq> 0" using pos by simp
  ultimately show ?thesis by (simp add: round_to_def Let_def)
qed

lemma binade_exists:
  assumes "x \<noteq> 0"
  shows "2 powr of_int \<lfloor>log 2 \<bar>x\<bar>\<rfloor> \<le> \<bar>x\<bar> \<and> \<bar>x\<bar> < 2 powr of_int (\<lfloor>log 2 \<bar>x\<bar>\<rfloor> + 1)"
proof -
  have "0 < \<bar>x\<bar>" using assms by simp
  then show ?thesis
    using floor_log_eq_powr_iff [of "\<bar>x\<bar>" 2 "\<lfloor>log 2 \<bar>x\<bar>\<rfloor>"] by simp
qed

lemma round_to_exact:
  assumes "\<bar>m\<bar> < 2 ^ p"
  shows "round_to p (of_int m * 2 powr of_int j) = of_int m * 2 powr of_int j"
proof (cases "m = 0")
  case True
  then show ?thesis by (simp add: round_to_def)
next
  case False
  let ?x = "of_int m * 2 powr of_int j :: real"
  have x0: "?x \<noteq> 0" using False by simp
  define e where "e = \<lfloor>log 2 \<bar>?x\<bar>\<rfloor>"
  have b: "2 powr of_int e \<le> \<bar>?x\<bar>" "\<bar>?x\<bar> < 2 powr of_int (e + 1)"
    using binade_exists [OF x0] unfolding e_def by simp_all
  have ax: "\<bar>?x\<bar> = of_int \<bar>m\<bar> * 2 powr of_int j"
    by (simp add: abs_mult)
  have "of_int \<bar>m\<bar> < (2::real) ^ p"
    using assms by (metis of_int_less_iff of_int_numeral of_int_power)
  then have "\<bar>?x\<bar> < 2 ^ p * 2 powr of_int j"
    unfolding ax by (simp add: mult_strict_right_mono)
  also have "\<dots> = 2 powr of_int (int p + j)"
    by (simp add: powr_add powr_realpow)
  finally have "2 powr of_int e < (2::real) powr of_int (int p + j)"
    using b(1) by linarith
  then have "e < int p + j" by simp
  then have kj: "0 \<le> j - (e - int p + 1)" by simp
  define n where "n = nat (j - (e - int p + 1))"
  have jn: "of_int j = of_int (e - int p + 1) + real n"
    using kj by (simp add: n_def)
  have q: "?x / 2 powr of_int (e - int p + 1) = of_int (m * 2 ^ n)"
    unfolding jn by (simp add: powr_add powr_realpow)
  have "round_to p ?x = of_int (m * 2 ^ n) * 2 powr of_int (e - int p + 1)"
    unfolding round_to_binade [OF b] q round_half_even_of_int ..
  also have "\<dots> = ?x"
    unfolding jn by (simp add: powr_add powr_realpow)
  finally show ?thesis .
qed

lemma round_half_even_bounds:
  "\<lfloor>t\<rfloor> \<le> round_half_even t \<and> round_half_even t \<le> \<lfloor>t\<rfloor> + 1"
  by (simp add: round_half_even_def Let_def)

lemma round_half_even_nonzero:
  assumes "1 \<le> \<bar>t\<bar>"
  shows "round_half_even t \<noteq> 0"
proof (cases "0 \<le> t")
  case True
  then have "1 \<le> \<lfloor>t\<rfloor>" using assms by linarith
  then show ?thesis using round_half_even_bounds [of t] by linarith
next
  case False
  then have t: "t \<le> - 1" using assms by linarith
  show ?thesis
  proof (cases "t = - 1")
    case True
    then have "t = of_int (- 1)" by simp
    then show ?thesis using round_half_even_of_int [of "- 1"] by simp
  next
    case False
    with t have "\<lfloor>t\<rfloor> \<le> - 2" by linarith
    then show ?thesis using round_half_even_bounds [of t] by linarith
  qed
qed

lemma round_to_nonzero:
  assumes "x \<noteq> 0" and "0 < p"
  shows "round_to p x \<noteq> 0"
proof -
  define e where "e = \<lfloor>log 2 \<bar>x\<bar>\<rfloor>"
  define u where "u = (2::real) powr of_int (e - int p + 1)"
  have b: "2 powr of_int e \<le> \<bar>x\<bar>"
    using binade_exists [OF assms(1)] unfolding e_def by simp
  have u: "0 < u" by (simp add: u_def)
  have "2 powr of_int e = u * 2 powr of_int (int p - 1)"
    by (simp add: u_def powr_add [symmetric])
  moreover have "(1::real) \<le> 2 powr of_int (int p - 1)"
    using assms(2) by (simp add: ge_one_powr_ge_zero)
  ultimately have "u \<le> \<bar>x\<bar>" using b u
    by (smt (verit) mult_le_cancel_left1)
  then have "1 \<le> \<bar>x / u\<bar>" using u by (simp add: le_divide_eq)
  then have "round_half_even (x / u) \<noteq> 0"
    by (rule round_half_even_nonzero)
  then show ?thesis
    using assms(1) u by (simp add: round_to_def Let_def e_def u_def)
qed

lemma round_to_near:
  assumes "2 powr of_int e \<le> \<bar>x\<bar>" and "\<bar>x\<bar> < 2 powr of_int (e + 1)"
    and "of_int m - 1/2 < x / 2 powr of_int (e - int p + 1)"
    and "x / 2 powr of_int (e - int p + 1) < of_int m + 1/2"
  shows "round_to p x = of_int m * 2 powr of_int (e - int p + 1)"
  unfolding round_to_binade [OF assms(1,2)] round_half_even_near [OF assms(3,4)] ..

lemma round_to_tie_even:
  assumes "2 powr of_int e \<le> \<bar>x\<bar>" and "\<bar>x\<bar> < 2 powr of_int (e + 1)"
    and "x / 2 powr of_int (e - int p + 1) = of_int m + 1/2" and "even m"
  shows "round_to p x = of_int m * 2 powr of_int (e - int p + 1)"
  unfolding round_to_binade [OF assms(1,2)] round_half_even_tie [OF assms(3,4)] ..

lemma round_to_0: "round_to p 0 = 0"
  by (simp add: round_to_def)

lemma round_to_1: "0 < p \<Longrightarrow> round_to p 1 = 1"
  using round_to_exact [of 1 p 0] by simp

lemma f32_square_full_scale: "f32 (32767 * 32767) = 1073676288"
  unfolding f32_def
  using round_to_near [of 29 "32767 * 32767" 16776192 24] by simp

lemma exact_multiples_full_scale:
  assumes "k \<le> 1024"
  shows "f32 (real k * 1073676288) = real k * 1073676288"
proof -
  have "\<bar>16383 * int k\<bar> < 2 ^ 24" using assms by simp
  from round_to_exact [OF this, of 16]
  show ?thesis by (simp add: f32_def mult.commute)
qed

lemma f32_full_scale_mean: "f32 (f64 1073676288) = 1073676288"
proof -
  have "round_to 53 (of_int 16383 * 2 powr of_int 16) = of_int 16383 * 2 powr of_int 16"
    by (rule round_to_exact) simp
  moreover have "round_to 24 (of_int 16383 * 2 powr of_int 16) = of_int 16383 * 2 powr of_int 16"
    by (rule round_to_exact) simp
  ultimately show ?thesis by (simp add: f32_def f64_def)
qed

lemma sqrt_between:
  assumes "0 \<le> lo" and "lo\<^sup>2 < x" and "0 \<le> hi" and "x < hi\<^sup>2"
  shows "lo < sqrt x \<and> sqrt x < hi"
  using assms by (simp add: real_less_rsqrt real_less_lsqrt)

lemma f32_sqrt_full_scale: "f32 (sqrt 1073676288) = 32767"
proof -
  have "33553407 / 1024 < sqrt 1073676288 \<and> sqrt 1073676288 < 33553409 / 1024"
    by (rule sqrt_between) (simp_all add: power2_eq_square)
  then have b: "33553407 / 1024 < sqrt 1073676288" "sqrt 1073676288 < 33553409 / 1024"
    by simp_all
  have "round_to 24 (sqrt 1073676288) = of_int 16776704 * 2 powr of_int (14 - int 24 + 1)"
    by (rule round_to_near) (use b in \<open>simp_all add: powr_minus_divide\<close>)
  then show ?thesis by (simp add: f32_def powr_minus_divide)
qed

subsection \<open>The sum of equal numbers\<close>

text \<open>
  When every multiple of \<open>v\<close> up to \<open>N\<close> times is a float32, the pairwise sum of up to \<open>N\<close>
  copies of \<open>v\<close> is exact, since every partial sum is such a multiple.
\<close>

lemma fadd32_multiples:
  assumes "\<forall>k\<le>N. f32 (real k * v) = real k * v" and "a + b \<le> N"
  shows "fadd32 (real a * v) (real b * v) = real (a + b) * v"
proof -
  have e: "real a * v + real b * v = real (a + b) * v" by (simp add: algebra_simps)
  have "f32 (real (a + b) * v) = real (a + b) * v"
    using assms by blast
  then show ?thesis unfolding fadd32_def e .
qed

lemma fadd32_multiple_one:
  assumes "\<forall>k\<le>N. f32 (real k * v) = real k * v" and "Suc a \<le> N"
  shows "fadd32 (real a * v) v = real (Suc a) * v"
  using fadd32_multiples [OF assms(1), of a 1] assms(2) by simp

lemma foldl_fadd32_replicate:
  assumes "\<forall>k\<le>N. f32 (real k * v) = real k * v" and "c + r \<le> N"
  shows "foldl fadd32 (real c * v) (replicate r v) = real (c + r) * v"
  using assms(2)
proof (induction r arbitrary: c)
  case 0
  then show ?case by simp
next
  case (Suc r)
  have "fadd32 (real c * v) v = real (Suc c) * v"
    using Suc.prems by (intro fadd32_multiple_one [OF assms(1)]) simp
  moreover have "Suc c + r \<le> N" using Suc.prems by simp
  ultimately show ?case using Suc.IH [of "Suc c"] by simp
qed

lemma unroll8_replicate:
  assumes "\<forall>k\<le>N. f32 (real k * v) = real k * v" and "c + g \<le> N"
  shows "unroll8 (replicate 8 (real c * v)) (replicate (8 * g) v) = replicate 8 (real (c + g) * v)"
  using assms(2)
proof (induction g arbitrary: c)
  case 0
  then show ?case by (subst unroll8.simps) simp
next
  case (Suc g)
  have s: "fadd32 (real c * v) v = real (Suc c) * v"
    using Suc.prems by (intro fadd32_multiple_one [OF assms(1)]) simp
  have t: "take 8 (replicate (8 * Suc g) v) = replicate 8 v"
    by simp
  have d: "drop 8 (replicate (8 * Suc g) v) = replicate (8 * g) v"
    by simp
  have z: "map (\<lambda>(a, b). fadd32 a b) (zip (replicate 8 (real c * v)) (replicate 8 v))
             = replicate 8 (real (Suc c) * v)"
    by (simp add: zip_replicate s del: replicate_Suc replicate.simps)
  have "unroll8 (replicate 8 (real c * v)) (replicate (8 * Suc g) v)
          = unroll8 (replicate 8 (real (Suc c) * v)) (replicate (8 * g) v)"
    by (subst unroll8.simps) (simp only: t d z length_replicate, simp)
  moreover have "Suc c + g \<le> N" using Suc.prems by simp
  ultimately show ?case using Suc.IH [of "Suc c"] by simp
qed


lemma block_sum_replicate:
  assumes "\<forall>k\<le>N. f32 (real k * v) = real k * v" and "8 \<le> n" and "n \<le> N"
  shows "block_sum (replicate n v) = real n * v"
proof -
  define q where "q = n div 8"
  define r where "r = n mod 8"
  have n: "n = 8 * q + r" by (simp add: q_def r_def)
  have q: "1 \<le> q" using assms(2) by (simp add: q_def)
  have r: "r < 8" by (simp add: r_def)
  have m: "n - n mod 8 = 8 * q" using n by (simp add: r_def)
  have one: "replicate 8 v = replicate 8 (real 1 * v)" by simp
  have body: "take (8 * q - 8) (drop 8 (replicate n v)) = replicate (8 * (q - 1)) v"
    using n by (simp add: min_def algebra_simps)
  have hd8: "take 8 (replicate n v) = replicate 8 v"
    using assms(2) by simp
  have acc: "unroll8 (take 8 (replicate n v)) (take (8 * q - 8) (drop 8 (replicate n v)))
               = replicate 8 (real q * v)"
    unfolding hd8 body
    using unroll8_replicate [OF assms(1), of 1 "q - 1"] q n assms(3) by simp
  have a2: "fadd32 (real q * v) (real q * v) = real (2 * q) * v"
    using fadd32_multiples [OF assms(1), of q q] n assms(3) by simp
  have a4: "fadd32 (real (2 * q) * v) (real (2 * q) * v) = real (4 * q) * v"
    using fadd32_multiples [OF assms(1), of "2 * q" "2 * q"] n assms(3) by simp
  have a8: "fadd32 (real (4 * q) * v) (real (4 * q) * v) = real (8 * q) * v"
    using fadd32_multiples [OF assms(1), of "4 * q" "4 * q"] n assms(3) by simp
  have rest: "drop (8 * q) (replicate n v) = replicate r v"
    using n by simp
  have tl: "foldl fadd32 (real (8 * q) * v) (replicate r v) = real n * v"
    using foldl_fadd32_replicate [OF assms(1), of "8 * q" r] n assms(3) by simp
  have ix: "replicate 8 (real q * v) ! 0 = real q * v" "replicate 8 (real q * v) ! 1 = real q * v"
      "replicate 8 (real q * v) ! 2 = real q * v" "replicate 8 (real q * v) ! 3 = real q * v"
      "replicate 8 (real q * v) ! 4 = real q * v" "replicate 8 (real q * v) ! 5 = real q * v"
      "replicate 8 (real q * v) ! 6 = real q * v" "replicate 8 (real q * v) ! 7 = real q * v"
    by simp_all
  show ?thesis
    unfolding block_sum_def Let_def length_replicate m acc rest
    by (simp only: ix a2 a4 a8 tl)
qed

lemma pairwise_sum_replicate:
  assumes "\<forall>k\<le>N. f32 (real k * v) = real k * v" and "n \<le> N"
  shows "pairwise_sum (replicate n v) = real n * v"
  using assms(2)
proof (induction n rule: less_induct)
  case (less n)
  show ?case
  proof (cases "n < 8")
    case True
    have "foldl fadd32 (real 0 * v) (replicate n v) = real (0 + n) * v"
      using less.prems by (intro foldl_fadd32_replicate [OF assms(1)]) simp
    then show ?thesis using True by (subst pairwise_sum.simps) simp
  next
    case False
    show ?thesis
    proof (cases "n \<le> 128")
      case True
      then show ?thesis using False less.prems
        by (subst pairwise_sum.simps) (simp add: block_sum_replicate [OF assms(1)])
    next
      case big: False
      define n2 where "n2 = n div 2 - n div 2 mod 8"
      have n2: "0 < n2" "n2 < n" using big unfolding n2_def by linarith+
      have l: "pairwise_sum (replicate n2 v) = real n2 * v"
        using less.IH [of n2] n2 less.prems by simp
      have h: "pairwise_sum (replicate (n - n2) v) = real (n - n2) * v"
        using less.IH [of "n - n2"] n2 less.prems by simp
      have s: "fadd32 (real n2 * v) (real (n - n2) * v) = real n * v"
        using fadd32_multiples [OF assms(1), of n2 "n - n2"] n2 less.prems by simp
      have "pairwise_sum (replicate n v)
              = fadd32 (pairwise_sum (replicate n2 v)) (pairwise_sum (replicate (n - n2) v))"
        using big n2 by (subst pairwise_sum.simps) (simp add: n2_def min_def)
      then show ?thesis by (simp add: l h s)
    qed
  qed
qed

subsection \<open>The level meter\<close>

lemma f32_0: "f32 0 = 0" and f64_0: "f64 0 = 0"
  by (simp_all add: f32_def f64_def round_to_0)

lemma f32_1: "f32 1 = 1"
  by (simp add: f32_def round_to_1)

lemma dbfs_zeros: "dbfs_from_int16 (replicate n 0) = - 100"
proof (cases "n = 0")
  case True
  then show ?thesis by (simp add: dbfs_from_int16_def)
next
  case False
  have e: "\<forall>k\<le>n. f32 (real k * 0) = real k * 0" by (simp add: f32_0)
  have s: "pairwise_sum (replicate n 0) = 0"
    using pairwise_sum_replicate [OF e, of n] by simp
  show ?thesis
    using False
    by (simp add: dbfs_from_int16_def Let_def s fadd32_def f32_0 f64_0)
qed

lemma dbfs_full_scale:
  assumes "1 \<le> n" and "n \<le> 1024"
  shows "dbfs_from_int16 (replicate n 32767) = 0"
proof -
  let ?v = "1073676288 :: real"
  have e: "\<forall>k\<le>1024. f32 (real k * ?v) = real k * ?v"
    by (simp add: exact_multiples_full_scale)
  have sq: "map (\<lambda>v. f32 (v * v)) (map (\<lambda>w. real_of_int (sint w)) (replicate n (32767 :: 16 word)))
              = replicate n ?v"
    using f32_square_full_scale by simp
  have s: "pairwise_sum (replicate n ?v) = real n * ?v"
    by (rule pairwise_sum_replicate [OF e assms(2)])
  have t: "fadd32 0 (real n * ?v) = real n * ?v"
    using exact_multiples_full_scale [OF assms(2)] by (simp add: fadd32_def)
  have m: "real n * ?v / real n = ?v"
    using assms(1) by simp
  have n0: "length (replicate n (32767 :: 16 word)) \<noteq> 0" using assms(1) by simp
  show ?thesis
    unfolding dbfs_from_int16_def Let_def sq s t length_replicate m
      f32_full_scale_mean f32_sqrt_full_scale
    using assms(1) by (simp add: f32_1 f32_0)
qed

text \<open>
  Claim C8, as the code has it. The level of an empty block and of a block of zeros is
  exactly the floor, -100. The level of a block of 1 to 1024 samples that are all 32767
  is exactly 0.
\<close>

theorem dbfs_floor_and_full_scale:
  "dbfs_from_int16 [] = - 100
   \<and> dbfs_from_int16 (replicate n 0) = - 100
   \<and> (1 \<le> n \<and> n \<le> 1024 \<longrightarrow> dbfs_from_int16 (replicate n 32767) = 0)"
  using dbfs_zeros [of n] dbfs_full_scale [of n] by (simp add: dbfs_from_int16_def)

theorem dbfs_floor_and_full_scale_witness:
  "(1::nat) \<le> 1024 \<and> (1024::nat) \<le> 1024
   \<and> dbfs_from_int16 (replicate 1024 0) = - 100
   \<and> dbfs_from_int16 (replicate 1024 32767) = 0"
  using dbfs_floor_and_full_scale [of 1024] by simp

text \<open>What float32 makes of a full-scale block of 1027 samples, step by step.\<close>

lemma pairwise_sum_1027: "pairwise_sum (replicate 1027 1073676288) = 1102665482240"
proof -
  let ?v = "1073676288 :: real"
  have e: "\<forall>k\<le>1024. f32 (real k * ?v) = real k * ?v"
    by (simp add: exact_multiples_full_scale)
  have l: "pairwise_sum (replicate 512 ?v) = real 512 * ?v"
    by (rule pairwise_sum_replicate [OF e]) simp
  have h: "pairwise_sum (replicate 515 ?v) = real 515 * ?v"
    by (rule pairwise_sum_replicate [OF e]) simp
  have "pairwise_sum (replicate 1027 ?v)
          = fadd32 (pairwise_sum (replicate 512 ?v)) (pairwise_sum (replicate 515 ?v))"
    by (subst pairwise_sum.simps) simp
  also have "\<dots> = f32 1102665547776"
    unfolding l h by (simp add: fadd32_def)
  also have "\<dots> = 1102665482240"
    unfolding f32_def
    using round_to_tie_even [of 40 1102665547776 24 8412670] by simp
  finally show ?thesis .
qed

lemma total_1027: "fadd32 0 1102665482240 = 1102665482240"
proof -
  have "round_to 24 (of_int 8412670 * 2 powr of_int 17) = of_int 8412670 * 2 powr of_int 17"
    by (rule round_to_exact) simp
  then show ?thesis by (simp add: fadd32_def f32_def)
qed

lemma mean_1027: "f32 (f64 (1102665482240 / 1027)) = 1073676224"
proof -
  have "round_to 53 (1102665482240 / 1027)
          = of_int 9006648963624461 * 2 powr of_int (29 - int 53 + 1)"
    by (rule round_to_near) (simp_all add: powr_minus_divide)
  then have y: "f64 (1102665482240 / 1027) = 9006648963624461 / 8388608"
    by (simp add: f64_def powr_minus_divide)
  have "round_to 24 (9006648963624461 / 8388608)
          = of_int 16776191 * 2 powr of_int (29 - int 24 + 1)"
    by (rule round_to_near) simp_all
  then show ?thesis unfolding y by (simp add: f32_def)
qed

lemma rms_1027: "f32 (sqrt 1073676224) = 16776703 / 512"
proof -
  have "33553405 / 1024 < sqrt 1073676224 \<and> sqrt 1073676224 < 33553407 / 1024"
    by (rule sqrt_between) (simp_all add: power2_eq_square)
  then have b: "33553405 / 1024 < sqrt 1073676224" "sqrt 1073676224 < 33553407 / 1024"
    by simp_all
  have "round_to 24 (sqrt 1073676224) = of_int 16776703 * 2 powr of_int (14 - int 24 + 1)"
    by (rule round_to_near) (use b in \<open>simp_all add: powr_minus_divide\<close>)
  then show ?thesis by (simp add: f32_def powr_minus_divide)
qed

lemma ratio_1027: "f32 (16776703 / 512 / 32767) = 16777215 / 16777216"
proof -
  have "round_to 24 (16776703 / 512 / 32767)
          = of_int 16777215 * 2 powr of_int (- 1 - int 24 + 1)"
    by (rule round_to_near) (simp_all add: powr_minus_divide)
  then show ?thesis by (simp add: f32_def powr_minus_divide)
qed

lemma level_1027: "f32 (20 * f32 (log 10 (16777215 / 16777216))) \<noteq> 0"
proof -
  have "ln (16777215 / 16777216 :: real) \<noteq> 0"
    by (simp add: ln_eq_zero_iff)
  then have "log 10 (16777215 / 16777216) \<noteq> 0"
    by (simp add: log_def)
  then have "f32 (log 10 (16777215 / 16777216)) \<noteq> 0"
    unfolding f32_def by (intro round_to_nonzero) simp_all
  then have "20 * f32 (log 10 (16777215 / 16777216)) \<noteq> 0"
    by simp
  then show ?thesis
    unfolding f32_def by (intro round_to_nonzero) simp_all
qed

text \<open>
  Claim C8 as stated has the level of every full-scale block be exactly 0. On the code:
  a block of 1027 samples, all 32767. The sum of the 1027 squares needs 25 bits and is
  rounded down, the mean falls one float32 below the square, its root one float32 below
  32767, and the level is not 0.
\<close>

theorem dbfs_full_scale_1027: "dbfs_from_int16 (replicate 1027 32767) \<noteq> 0"
proof -
  have sq: "map (\<lambda>v. f32 (v * v)) (map (\<lambda>w. real_of_int (sint w)) (replicate 1027 (32767 :: 16 word)))
              = replicate 1027 1073676288"
    using f32_square_full_scale by simp
  have pos: "(16776703 / 512 :: real) > 0" by simp
  have "dbfs_from_int16 (replicate 1027 32767)
          = f32 (20 * f32 (log 10 (16777215 / 16777216)))"
    unfolding dbfs_from_int16_def Let_def sq pairwise_sum_1027 total_1027 length_replicate
    by (simp only: of_nat_numeral mean_1027 rms_1027 ratio_1027 pos, simp)
  then show ?thesis using level_1027 by simp
qed

subsection \<open>The tail hang\<close>

lemmas gate_defs = gate_at_def initial_trx_def start_tx_def audio_tx_loop_def tail_check_def
  stop_tx_after_tail_def Let_def

text \<open>
  Claim C2. A key request at time 0 and an unkey request at time 1, with a tail hang of
  0.75 s: the check wakes at 1.75 s, or later by as much as its sleep runs late. Until
  then the gate is keyed and \<^verbatim>\<open>ptt.unkey()\<close> has not been called; the check calls it at
  the moment it wakes, and the gate is idle from then on.
\<close>

theorem tail_hang_unkeys_at_1_75:
  assumes "0 \<le> lag"
  shows "(\<forall>t. 0 \<le> t \<and> t < 7/4 + lag \<longrightarrow>
            is_transmitting (gate_at (3/4) lag [(0, RequestKey), (1, RequestUnkey)] t)
            \<and> ptt_trace (gate_at (3/4) lag [(0, RequestKey), (1, RequestUnkey)] t) = [(0, Key)])
       \<and> (\<forall>t. 7/4 + lag \<le> t \<longrightarrow>
            \<not> is_transmitting (gate_at (3/4) lag [(0, RequestKey), (1, RequestUnkey)] t)
            \<and> ptt_trace (gate_at (3/4) lag [(0, RequestKey), (1, RequestUnkey)] t)
                = [(0, Key), (7/4 + lag, Unkey)])"
proof (intro conjI allI impI)
  fix t :: real
  assume t: "0 \<le> t \<and> t < 7/4 + lag"
  show "is_transmitting (gate_at (3/4) lag [(0, RequestKey), (1, RequestUnkey)] t)"
    using t assms by (simp add: gate_defs)
  show "ptt_trace (gate_at (3/4) lag [(0, RequestKey), (1, RequestUnkey)] t) = [(0, Key)]"
    using t assms by (simp add: gate_defs)
next
  fix t :: real
  assume t: "7/4 + lag \<le> t"
  show "\<not> is_transmitting (gate_at (3/4) lag [(0, RequestKey), (1, RequestUnkey)] t)"
    using t assms by (simp add: gate_defs)
  show "ptt_trace (gate_at (3/4) lag [(0, RequestKey), (1, RequestUnkey)] t)
                = [(0, Key), (7/4 + lag, Unkey)]"
    using t assms by (simp add: gate_defs)
qed

theorem tail_hang_unkeys_witness:
  "(0::real) \<le> 0
   \<and> is_transmitting (gate_at (3/4) 0 [(0, RequestKey), (1, RequestUnkey)] (3/2))
   \<and> ptt_trace (gate_at (3/4) 0 [(0, RequestKey), (1, RequestUnkey)] (3/2)) = [(0, Key)]
   \<and> \<not> is_transmitting (gate_at (3/4) 0 [(0, RequestKey), (1, RequestUnkey)] (7/4))
   \<and> ptt_trace (gate_at (3/4) 0 [(0, RequestKey), (1, RequestUnkey)] (7/4))
       = [(0, Key), (7/4, Unkey)]"
proof -
  have h: "(0::real) \<le> 0" by simp
  from tail_hang_unkeys_at_1_75 [OF h] show ?thesis
    by simp
qed

text \<open>
  Claim C3. Key at 0, unkey at 0.5, key again at 0.9, tail hang 0.75 s: the check of the
  unkey request is asleep until 1.25 s (plus the lateness of its sleep, less than 0.4 s).
  When it runs, \<^verbatim>\<open>last_key_time\<close> is 0.9 and the check leaves the gate as it is: the gate
  is keyed at every time from 0 on, and \<^verbatim>\<open>ptt.unkey()\<close> is never called.
\<close>

theorem rekey_makes_tail_check_a_noop:
  assumes "0 \<le> lag" and "lag < 2/5"
  shows "(\<forall>t. 9/10 \<le> t \<and> t < 5/4 + lag \<longrightarrow>
            snd (gate_run (3/4) lag [(0, RequestKey), (1/2, RequestUnkey), (9/10, RequestKey)] t
                   (initial_trx, [])) = [5/4 + lag]
            \<and> last_key_time (gate_at (3/4) lag
                   [(0, RequestKey), (1/2, RequestUnkey), (9/10, RequestKey)] t) = 9/10
            \<and> tail_check (3/4) (5/4 + lag)
                 (gate_at (3/4) lag [(0, RequestKey), (1/2, RequestUnkey), (9/10, RequestKey)] t)
               = gate_at (3/4) lag [(0, RequestKey), (1/2, RequestUnkey), (9/10, RequestKey)] t)
       \<and> (\<forall>t. 5/4 + lag \<le> t \<longrightarrow>
            snd (gate_run (3/4) lag [(0, RequestKey), (1/2, RequestUnkey), (9/10, RequestKey)] t
                   (initial_trx, [])) = [])
       \<and> (\<forall>t. 0 \<le> t \<longrightarrow>
            is_transmitting (gate_at (3/4) lag
                [(0, RequestKey), (1/2, RequestUnkey), (9/10, RequestKey)] t)
            \<and> ptt_trace (gate_at (3/4) lag
                [(0, RequestKey), (1/2, RequestUnkey), (9/10, RequestKey)] t) = [(0, Key)])"
proof (intro conjI allI impI)
  fix t :: real
  assume t: "9/10 \<le> t \<and> t < 5/4 + lag"
  show "snd (gate_run (3/4) lag [(0, RequestKey), (1/2, RequestUnkey), (9/10, RequestKey)] t
                   (initial_trx, [])) = [5/4 + lag]"
    using t assms by (simp add: gate_defs)
  show "last_key_time (gate_at (3/4) lag
                   [(0, RequestKey), (1/2, RequestUnkey), (9/10, RequestKey)] t) = 9/10"
    using t assms by (simp add: gate_defs)
  show "tail_check (3/4) (5/4 + lag)
                 (gate_at (3/4) lag [(0, RequestKey), (1/2, RequestUnkey), (9/10, RequestKey)] t)
               = gate_at (3/4) lag [(0, RequestKey), (1/2, RequestUnkey), (9/10, RequestKey)] t"
    using t assms by (simp add: gate_defs)
next
  fix t :: real
  assume t: "5/4 + lag \<le> t"
  show "snd (gate_run (3/4) lag [(0, RequestKey), (1/2, RequestUnkey), (9/10, RequestKey)] t
                   (initial_trx, [])) = []"
    using t assms by (simp add: gate_defs)
next
  fix t :: real
  assume t: "0 \<le> t"
  show "is_transmitting (gate_at (3/4) lag
                [(0, RequestKey), (1/2, RequestUnkey), (9/10, RequestKey)] t)"
    using t assms by (simp add: gate_defs)
  show "ptt_trace (gate_at (3/4) lag
                [(0, RequestKey), (1/2, RequestUnkey), (9/10, RequestKey)] t) = [(0, Key)]"
    using t assms by (simp add: gate_defs)
qed

theorem rekey_makes_tail_check_a_noop_witness:
  "(0::real) \<le> 0 \<and> (0::real) < 2/5
   \<and> snd (gate_run (3/4) 0 [(0, RequestKey), (1/2, RequestUnkey), (9/10, RequestKey)] 1
            (initial_trx, [])) = [5/4]
   \<and> snd (gate_run (3/4) 0 [(0, RequestKey), (1/2, RequestUnkey), (9/10, RequestKey)] (5/4)
            (initial_trx, [])) = []
   \<and> is_transmitting (gate_at (3/4) 0
        [(0, RequestKey), (1/2, RequestUnkey), (9/10, RequestKey)] (5/4))
   \<and> ptt_trace (gate_at (3/4) 0
        [(0, RequestKey), (1/2, RequestUnkey), (9/10, RequestKey)] 2) = [(0, Key)]"
proof -
  have h: "(0::real) \<le> 0" "(0::real) < 2/5" by simp_all
  from rekey_makes_tail_check_a_noop [OF h] show ?thesis
    by simp
qed

subsection \<open>The playback loop\<close>

lemma frombuffer_full_scale: "frombuffer_int16 [0xFF, 0x7F, 0xFF, 0x7F] = Inr [32767, 32767]"
  by (simp add: frombuffer_int16_def)

text \<open>With nothing to play the loop writes a block of \<^verbatim>\<open>CHUNK\<close> zeros and sets the level to the floor.\<close>

lemma play_loop_silence:
  "is_transmitting g \<Longrightarrow> tx_thread_alive g \<Longrightarrow> \<not> tx_thread_exiting g \<Longrightarrow> rx_q b = [] \<Longrightarrow>
   play_loop_iter CHUNK (g, b)
     = (g\<lparr>current_tx_dbfs := - 100, stream_written := stream_written g @ [replicate CHUNK 0]\<rparr>, b)"
  by (simp add: play_loop_iter_def get_received_def get_timeout_def play_silence_def Let_def)

text \<open>
  Claim C5. While the gate is keyed, a frame taken from the link-to-radio queue is
  written to the output and the TX level is then to be computed from its samples. On
  the code: the gate is keyed, the queue holds one frame of two full-scale samples; the
  pass through the loop writes the frame, then ends the playback thread with NameError,
  and the TX level keeps its former value, the floor -100.
\<close>

theorem play_loop_frame_raises_name_error:
  "play_loop_iter 1024
     (start_tx 0 initial_trx, on_sound_received [0xFF, 0x7F, 0xFF, 0x7F] new_bridge)
   = ((start_tx 0 initial_trx)
        \<lparr>stream_written := [[32767, 32767]], tx_thread_alive := False,
         tx_thread_error := Some NameError\<rparr>,
      new_bridge)
   \<and> current_tx_dbfs (fst (play_loop_iter 1024
        (start_tx 0 initial_trx, on_sound_received [0xFF, 0x7F, 0xFF, 0x7F] new_bridge))) = - 100"
proof -
  have q: "on_sound_received [0xFF, 0x7F, 0xFF, 0x7F] new_bridge
             = new_bridge\<lparr>rx_q := [[0xFF, 0x7F, 0xFF, 0x7F]]\<rparr>"
    by (simp add: on_sound_received_def put_nowait_def maxsize_def new_bridge_def)
  have g: "get_received (new_bridge\<lparr>rx_q := [[0xFF, 0x7F, 0xFF, 0x7F]]\<rparr>)
             = (Some [0xFF, 0x7F, 0xFF, 0x7F], new_bridge)"
    by (simp add: get_received_def get_timeout_def new_bridge_def)
  have k: "is_transmitting (start_tx 0 initial_trx)" "tx_thread_alive (start_tx 0 initial_trx)"
      "\<not> tx_thread_exiting (start_tx 0 initial_trx)"
      "stream_written (start_tx 0 initial_trx) = []"
      "current_tx_dbfs (start_tx 0 initial_trx) = - 100"
    by (simp_all add: start_tx_def audio_tx_loop_def initial_trx_def Let_def)
  have 1: "play_loop_iter 1024
     (start_tx 0 initial_trx, on_sound_received [0xFF, 0x7F, 0xFF, 0x7F] new_bridge)
   = ((start_tx 0 initial_trx)
        \<lparr>stream_written := [[32767, 32767]], tx_thread_alive := False,
         tx_thread_error := Some NameError\<rparr>,
      new_bridge)"
    unfolding q by (simp add: play_loop_iter_def g k frombuffer_full_scale Let_def)
  show ?thesis
    unfolding 1 by (simp add: k)
qed

subsection \<open>The status snapshot\<close>

text \<open>
  Claim C9. The snapshot is to show the pair of transmit state and \<^verbatim>\<open>last_key_time\<close> as
  it was at one moment. On the code: \<^verbatim>\<open>http_status\<close> reads \<^verbatim>\<open>last_key_time\<close> at time 10
  on the idle gate, outside the lock; \<^verbatim>\<open>start_tx\<close> runs at time 11; \<^verbatim>\<open>http_status\<close> then
  reads \<^verbatim>\<open>is_transmitting\<close> under the lock. The snapshot says keyed with no key time,
  which is neither the snapshot of the gate before \<^verbatim>\<open>start_tx\<close> nor one of the gate
  after it.
\<close>

theorem http_status_torn_snapshot:
  "http_status 10 initial_trx (start_tx 11 initial_trx) (start_tx 11 initial_trx)
     = \<lparr> tx = True, last_key_age = None, rx_dbfs = - 100, tx_dbfs = - 100 \<rparr>
   \<and> http_status 10 initial_trx initial_trx initial_trx
     = \<lparr> tx = False, last_key_age = None, rx_dbfs = - 100, tx_dbfs = - 100 \<rparr>
   \<and> http_status 12 (start_tx 11 initial_trx) (start_tx 11 initial_trx) (start_tx 11 initial_trx)
     = \<lparr> tx = True, last_key_age = Some 1, rx_dbfs = - 100, tx_dbfs = - 100 \<rparr>"
  by (simp add: http_status_def start_tx_def audio_tx_loop_def initial_trx_def Let_def)

end
